theory Spec2Isabelle
  imports
    Complex_Main
    "HOL-Library.Product_Lexorder"
    "HOL-Library.Char_ord"
    "HOL-Library.List_Lexorder"
begin

section \<open>Data model\<close>

text \<open>
  The dashboard (\<^verbatim>\<open>app.py\<close>) works on a data frame with the columns
  \<^verbatim>\<open>Date\<close>, \<^verbatim>\<open>Crime_Type\<close>, \<^verbatim>\<open>Latitude\<close>, \<^verbatim>\<open>Longitude\<close> and \<^verbatim>\<open>District\<close>.
  A data frame is the list of its rows, in row order. The \<^verbatim>\<open>Date\<close> column is parsed
  into timestamps (\<^verbatim>\<open>parse_dates=["Date"]\<close>): a calendar day and a time of day, here
  the seconds since midnight. Floating-point coordinates are idealised as reals.
  \<^verbatim>\<open>read_csv\<close> reads an empty cell of a text column as the missing value
  (\<^verbatim>\<open>NaN\<close>): a label is \<open>Some\<close> string, or \<open>None\<close> where it is missing.
\<close>

record timestamp =
  ts_year :: nat
  ts_month :: nat
  ts_day :: nat
  ts_secs :: nat

text \<open>
  A \<^verbatim>\<open>datetime.date\<close> is a triple (year, month, day); Python compares dates
  chronologically, which is the lexicographic order of the triple.
\<close>

type_synonym date = "nat \<times> nat \<times> nat"

record incident =
  Date :: timestamp
  Crime_Type :: "string option"
  Latitude :: real
  Longitude :: real
  District :: "string option"

type_synonym dataframe = "incident list"

text \<open>Timestamps are ordered chronologically: by day, then by time of day.\<close>

definition ts_key :: "timestamp \<Rightarrow> nat \<times> nat \<times> nat \<times> nat" where
  "ts_key t = (ts_year t, ts_month t, ts_day t, ts_secs t)"

text \<open>\<^verbatim>\<open>Series.dt.date\<close>: the calendar day of a timestamp, the time of day dropped.\<close>

definition dt_date :: "timestamp \<Rightarrow> date" where
  "dt_date t = (ts_year t, ts_month t, ts_day t)"

text \<open>A calendar day as Python's \<^verbatim>\<open>datetime\<close> admits it.\<close>

definition is_leap :: "nat \<Rightarrow> bool" where
  "is_leap y = (if y mod 400 = 0 then True else if y mod 100 = 0 then False else y mod 4 = 0)"

definition days_in_month :: "nat \<Rightarrow> nat \<Rightarrow> nat" where
  "days_in_month y m =
     (if m = 2 then (if is_leap y then 29 else 28)
      else if m = 4 \<or> m = 6 \<or> m = 9 \<or> m = 11 then 30 else 31)"

definition valid_ts :: "timestamp \<Rightarrow> bool" where
  "valid_ts t = (1 \<le> ts_year t \<and> 1 \<le> ts_month t \<and> ts_month t \<le> 12 \<and>
                 1 \<le> ts_day t \<and> ts_day t \<le> days_in_month (ts_year t) (ts_month t) \<and>
                 ts_secs t < 86400)"

text \<open>The rows of a data frame carry calendar days.\<close>

definition valid_df :: "dataframe \<Rightarrow> bool" where
  "valid_df df = list_all (\<lambda>r. valid_ts (Date r)) df"

section \<open>Filter (app.py, section 3)\<close>

text \<open>
  \<^verbatim>\<open>
  mask = (
      df["Date"].dt.date.between(start, end)
      & df["District"].isin(districts)
  )
  if category != "All":
      mask &= df["Crime_Type"] == category
  filtered = df[mask]
  \<close>
  \<^verbatim>\<open>between\<close> is inclusive on both ends (the library's default). A mask is a column
  of booleans, one per row; \<^verbatim>\<open>&\<close> combines two masks row by row; \<^verbatim>\<open>df[mask]\<close> keeps
  the rows whose mask entry is true, in order. \<^verbatim>\<open>isin\<close> finds a missing value in a
  list that holds the missing value. The comparison \<^verbatim>\<open>==\<close> of a column with a scalar is
  false at every row whose value is missing, whatever the scalar, and false at every
  row where the scalar is the missing value. The selected category and the selected
  districts are taken from the values of the columns (\<^verbatim>\<open>unique()\<close>), the missing value
  among them if the column has it.
\<close>

definition between :: "date \<Rightarrow> date \<Rightarrow> date \<Rightarrow> bool" where
  "between x left right = (left \<le> x \<and> x \<le> right)"

definition isin :: "string option \<Rightarrow> string option list \<Rightarrow> bool" where
  "isin x vs = (x \<in> set vs)"

definition eq_scalar :: "string option \<Rightarrow> string option \<Rightarrow> bool" where
  "eq_scalar x v = (case x of None \<Rightarrow> False | Some a \<Rightarrow> v = Some a)"

definition mask_and :: "bool list \<Rightarrow> bool list \<Rightarrow> bool list" where
  "mask_and a b = map2 (\<and>) a b"

definition mask ::
  "dataframe \<Rightarrow> date \<Rightarrow> date \<Rightarrow> string option \<Rightarrow> string option list \<Rightarrow> bool list" where
  "mask df start end category districts =
     (let m = mask_and (map (\<lambda>r. between (dt_date (Date r)) start end) df)
                       (map (\<lambda>r. isin (District r) districts) df)
      in if category \<noteq> Some ''All''
         then mask_and m (map (\<lambda>r. eq_scalar (Crime_Type r) category) df)
         else m)"

definition boolean_index :: "'a list \<Rightarrow> bool list \<Rightarrow> 'a list" where
  "boolean_index df m = map fst (filter snd (zip df m))"

definition filtered ::
  "dataframe \<Rightarrow> date \<Rightarrow> date \<Rightarrow> string option \<Rightarrow> string option list \<Rightarrow> dataframe" where
  "filtered df start end category districts =
     boolean_index df (mask df start end category districts)"

section \<open>Metrics and grouped summaries (app.py, sections 4 to 7)\<close>

text \<open>
  \<^verbatim>\<open>
  tot = len(filtered)
  ucat = filtered["Crime_Type"].nunique()
  dud = filtered["District"].nunique()
  \<close>
  \<^verbatim>\<open>nunique\<close>, \<^verbatim>\<open>value_counts\<close> and \<^verbatim>\<open>groupby(...).size()\<close> leave the missing values
  out (the library's default \<^verbatim>\<open>dropna=True\<close>).
\<close>

fun dropna :: "'a option list \<Rightarrow> 'a list" where
  "dropna [] = []"
| "dropna (None # col) = dropna col"
| "dropna (Some v # col) = v # dropna col"

definition nunique :: "'a option list \<Rightarrow> nat" where
  "nunique col = length (remdups (dropna col))"

definition tot :: "dataframe \<Rightarrow> nat" where
  "tot F = length F"

definition ucat :: "dataframe \<Rightarrow> nat" where
  "ucat F = nunique (map Crime_Type F)"

definition dud :: "dataframe \<Rightarrow> nat" where
  "dud F = nunique (map District F)"

text \<open>
  \<^verbatim>\<open>Series.min()\<close> and \<^verbatim>\<open>Series.max()\<close> of a column of timestamps; on an empty
  column the library answers \<^verbatim>\<open>NaT\<close>, here \<open>None\<close>.
\<close>

definition ts_min :: "timestamp \<Rightarrow> timestamp \<Rightarrow> timestamp" where
  "ts_min a b = (if ts_key b < ts_key a then b else a)"

definition ts_max :: "timestamp \<Rightarrow> timestamp \<Rightarrow> timestamp" where
  "ts_max a b = (if ts_key a < ts_key b then b else a)"

definition Series_min :: "timestamp list \<Rightarrow> timestamp option" where
  "Series_min col = (case col of [] \<Rightarrow> None | t # ts \<Rightarrow> Some (foldl ts_min t ts))"

definition Series_max :: "timestamp list \<Rightarrow> timestamp option" where
  "Series_max col = (case col of [] \<Rightarrow> None | t # ts \<Rightarrow> Some (foldl ts_max t ts))"

text \<open>
  The month index \<^verbatim>\<open>year*12 + month\<close> of a timestamp (the source's \<^verbatim>\<open>Mnum\<close>), and
  the month-end timestamp that labels the month with a given index.
\<close>

definition Mnum :: "timestamp \<Rightarrow> nat" where
  "Mnum t = ts_year t * 12 + ts_month t"

definition month_end :: "nat \<Rightarrow> timestamp" where
  "month_end n =
     (let y = (n - 1) div 12; m = (n - 1) mod 12 + 1
      in \<lparr>ts_year = y, ts_month = m, ts_day = days_in_month y m, ts_secs = 0\<rparr>)"

text \<open>
  \<^verbatim>\<open>groupby(pd.Grouper(key="Date", freq="ME")).size()\<close> bins the timestamps by
  calendar month. The library lays out one bin for every month from the month of the
  earliest timestamp to the month of the latest one, labels each bin with its month-end
  timestamp, and \<^verbatim>\<open>size()\<close> reports the number of rows of every bin, also of a bin no
  row falls in. On an empty column there is no bin.
\<close>

definition Grouper_ME_size :: "timestamp list \<Rightarrow> (timestamp \<times> nat) list" where
  "Grouper_ME_size col =
     (case (Series_min col, Series_max col) of
        (Some lo, Some hi) \<Rightarrow>
          map (\<lambda>n. (month_end n, length (filter (\<lambda>t. Mnum t = n) col)))
              [Mnum lo ..< Suc (Mnum hi)]
      | _ \<Rightarrow> [])"

text \<open>
  \<^verbatim>\<open>
  filtered.groupby(pd.Grouper(key="Date", freq="ME")).size().reset_index(name="Count")
  \<close>
\<close>

definition fig_ts_data :: "dataframe \<Rightarrow> (timestamp \<times> nat) list" where
  "fig_ts_data F = Grouper_ME_size (map Date F)"

text \<open>
  \<^verbatim>\<open>filtered["Crime_Type"].value_counts()\<close>: one entry per distinct value that is
  not missing, the most frequent first. Values of equal frequency are kept here in the order of their first
  occurrence; nothing below relies on the order among them.
\<close>

definition uniques :: "'a list \<Rightarrow> 'a list" where
  "uniques col = rev (remdups (rev col))"

definition value_counts :: "string option list \<Rightarrow> (string \<times> nat) list" where
  "value_counts col =
     sort_key (\<lambda>(v, c). - int c)
       (map (\<lambda>v. (v, count_list (dropna col) v)) (uniques (dropna col)))"

definition fig_pie_data :: "dataframe \<Rightarrow> (string \<times> nat) list" where
  "fig_pie_data F = value_counts (map Crime_Type F)"

text \<open>
  \<^verbatim>\<open>filtered.groupby("District").size()\<close>: one entry per distinct district that is
  not missing, the districts in ascending order.
\<close>

definition groupby_size :: "string option list \<Rightarrow> (string \<times> nat) list" where
  "groupby_size col =
     map (\<lambda>v. (v, count_list (dropna col) v)) (sort (remdups (dropna col)))"

definition fig_bar_data :: "dataframe \<Rightarrow> (string \<times> nat) list" where
  "fig_bar_data F = groupby_size (map District F)"

section \<open>Forecast (app.py, section 10)\<close>

text \<open>
  \<^verbatim>\<open>LinearRegression().fit(X, y)\<close> with one feature is the ordinary least-squares line:
  the library centres both columns, solves the least-squares problem for the slope (the
  minimum-norm solution, 0, when the feature is constant) and sets the intercept so that
  the line passes through the means. Floating-point numbers are idealised as reals.
\<close>

record LinearRegression =
  coef :: real
  intercept :: real

definition mean :: "real list \<Rightarrow> real" where
  "mean xs = sum_list xs / real (length xs)"

definition fit :: "real list \<Rightarrow> real list \<Rightarrow> LinearRegression" where
  "fit X y =
     (let X_offset = mean X; y_offset = mean y;
          sxx = sum_list (map (\<lambda>x. (x - X_offset) * (x - X_offset)) X);
          sxy = sum_list (map2 (\<lambda>x v. (x - X_offset) * (v - y_offset)) X y);
          c = (if sxx = 0 then 0 else sxy / sxx)
      in \<lparr>coef = c, intercept = y_offset - c * X_offset\<rparr>)"

definition predict :: "LinearRegression \<Rightarrow> real \<Rightarrow> real" where
  "predict model x = intercept model + coef model * x"

text \<open>
  \<^verbatim>\<open>
  if SKLEARN_AVAILABLE:
      hist = (df[df["District"]==pdist].groupby(pd.Grouper(key="Date",freq="ME"))
                .size().reset_index(name="Count"))
      if len(hist)>1:
          hist["Mnum"] = hist["Date"].dt.year*12+hist["Date"].dt.month
          model = LinearRegression().fit(hist[["Mnum"]], hist["Count"])
          nm = df["Date"].max().year*12+df["Date"].max().month+1
          pred = model.predict([[nm]])[0]
  \<close>
  Where no prediction is made the sidebar shows no forecast: \<open>Unavailable\<close>.
\<close>

datatype forecast_result = Unavailable | Predicted real

definition hist :: "dataframe \<Rightarrow> string option \<Rightarrow> (timestamp \<times> nat) list" where
  "hist df pdist =
     Grouper_ME_size
       (map Date (boolean_index df (map (\<lambda>r. eq_scalar (District r) pdist) df)))"

definition nm :: "dataframe \<Rightarrow> nat option" where
  "nm df = (case Series_max (map Date df) of
              None \<Rightarrow> None
            | Some t \<Rightarrow> Some (ts_year t * 12 + ts_month t + 1))"

definition forecast :: "bool \<Rightarrow> dataframe \<Rightarrow> string option \<Rightarrow> forecast_result" where
  "forecast SKLEARN_AVAILABLE df pdist =
     (if SKLEARN_AVAILABLE then
        (let h = hist df pdist in
         if length h > 1 then
           (let model = fit (map (\<lambda>(d, c). real (Mnum d)) h) (map (\<lambda>(d, c). real c) h)
            in case nm df of
                 None \<Rightarrow> Unavailable
               | Some n \<Rightarrow> Predicted (predict model (real n)))
         else Unavailable)
      else Unavailable)"

section \<open>Loading the data frame (app.py, section 2)\<close>

text \<open>
  \<^verbatim>\<open>pd.read_csv(source, parse_dates=["Date"])\<close> reads an uploaded file or a path. What it
  answers depends on the file's content, which the program does not control, so the
  reader is a parameter: \<open>Inr df\<close> is the parsed data frame, \<open>Inl e\<close> the exception it
  raises.
\<close>

datatype csv_source = UploadedFile string | FilePath string

type_synonym reader = "csv_source \<Rightarrow> string + dataframe"

text \<open>
  \<^verbatim>\<open>
  def upload_csv() -> pd.DataFrame | None:
      uploaded_file = st.sidebar.file_uploader(...)
      if uploaded_file is not None:
          try:
              df = pd.read_csv(uploaded_file, parse_dates=["Date"])
              st.sidebar.success(f"Loaded {len(df)} records from CSV")
              return df
          except Exception as e:
              st.sidebar.error(f"Error loading CSV: {e}")
      return None
  \<close>
  The function returns its result together with the messages it puts on the sidebar.
  The number in the success message is kept as the row count.
\<close>

datatype loaded_message = Loaded nat | Error_loading_CSV string

definition upload_csv :: "reader \<Rightarrow> string option \<Rightarrow> dataframe option \<times> loaded_message list" where
  "upload_csv read_csv uploaded_file =
     (case uploaded_file of
        Some f \<Rightarrow>
          (case read_csv (UploadedFile f) of
             Inr df \<Rightarrow> (Some df, [Loaded (length df)])
           | Inl e \<Rightarrow> (None, [Error_loading_CSV e]))
      | None \<Rightarrow> (None, []))"

text \<open>
  \<^verbatim>\<open>
  def load_data(path: str = "crime_data.csv") -> pd.DataFrame:
      return pd.read_csv(path, parse_dates=["Date"])
  \<close>
  An exception of the reader is not caught here: it ends the run, the result \<open>Inl e\<close>.
\<close>

definition load_data :: "reader \<Rightarrow> string \<Rightarrow> string + dataframe" where
  "load_data read_csv path = read_csv (FilePath path)"

text \<open>
  \<^verbatim>\<open>
  uploaded_df = upload_csv()
  if uploaded_df is not None:
      df = uploaded_df
  else:
      df = load_data()
  \<close>
\<close>

definition load_df :: "reader \<Rightarrow> string option \<Rightarrow> (string + dataframe) \<times> loaded_message list" where
  "load_df read_csv uploaded_file =
     (let (uploaded_df, messages) = upload_csv read_csv uploaded_file
      in case uploaded_df of
           Some df \<Rightarrow> (Inr df, messages)
         | None \<Rightarrow> (load_data read_csv ''crime_data.csv'', messages))"

section \<open>Data generator (gen_crime_data.py)\<close>

text \<open>
  \<^verbatim>\<open>
  NUM_RECORDS = 2000
  START_DATE  = datetime(2025, 1, 1)
  END_DATE    = datetime(2025, 5, 20)
  CRIME_TYPES = ["Theft", "Assault", "Burglary", "Robbery", "Vandalism", "Drug Offense", "Fraud"]
  DISTRICTS = ["Harare", "Bulawayo", "Mutare", "Gweru", "Chitungwiza", "Kadoma", "Marondera", "Masvingo"]
  LAT_MIN, LAT_MAX = -22.0, -15.0
  LON_MIN, LON_MAX =  25.0,  34.0
  \<close>
  A \<^verbatim>\<open>datetime\<close> is a timestamp: a calendar day and the seconds since midnight.
\<close>

definition NUM_RECORDS :: nat where
  "NUM_RECORDS = 2000"

definition START_DATE :: timestamp where
  "START_DATE = \<lparr>ts_year = 2025, ts_month = 1, ts_day = 1, ts_secs = 0\<rparr>"

definition END_DATE :: timestamp where
  "END_DATE = \<lparr>ts_year = 2025, ts_month = 5, ts_day = 20, ts_secs = 0\<rparr>"

definition CRIME_TYPES :: "string list" where
  "CRIME_TYPES = [''Theft'', ''Assault'', ''Burglary'', ''Robbery'',
                  ''Vandalism'', ''Drug Offense'', ''Fraud'']"

definition DISTRICTS :: "string list" where
  "DISTRICTS = [''Harare'', ''Bulawayo'', ''Mutare'', ''Gweru'',
                ''Chitungwiza'', ''Kadoma'', ''Marondera'', ''Masvingo'']"

definition LAT_MIN :: real where
  "LAT_MIN = - 22"

definition LAT_MAX :: real where
  "LAT_MAX = - 15"

definition LON_MIN :: real where
  "LON_MIN = 25"

definition LON_MAX :: real where
  "LON_MAX = 34"

text \<open>
  Date arithmetic of \<^verbatim>\<open>datetime\<close>. The ordinal of a day counts the days since
  1 January of year 1 (which has the ordinal 1); \<^verbatim>\<open>(end - start).days\<close> is the difference
  of the two instants in whole days, rounded down; \<^verbatim>\<open>start + timedelta(days=n)\<close>, for
  \<open>n\<close> not negative, is the instant \<open>n\<close> days later, at the same time of day.
\<close>

definition days_before_year :: "nat \<Rightarrow> nat" where
  "days_before_year y = (y - 1) * 365 + (y - 1) div 4 - (y - 1) div 100 + (y - 1) div 400"

definition days_before_month :: "nat \<Rightarrow> nat \<Rightarrow> nat" where
  "days_before_month y m = sum_list (map (days_in_month y) [1..<m])"

definition toordinal :: "timestamp \<Rightarrow> nat" where
  "toordinal t = days_before_year (ts_year t) + days_before_month (ts_year t) (ts_month t)
                 + ts_day t"

definition timedelta_days :: "timestamp \<Rightarrow> timestamp \<Rightarrow> int" where
  "timedelta_days e s =
     (int (toordinal e * 86400 + ts_secs e) - int (toordinal s * 86400 + ts_secs s)) div 86400"

definition next_day :: "timestamp \<Rightarrow> timestamp" where
  "next_day t =
     (if ts_day t < days_in_month (ts_year t) (ts_month t) then t\<lparr>ts_day := ts_day t + 1\<rparr>
      else if ts_month t < 12 then t\<lparr>ts_month := ts_month t + 1, ts_day := 1\<rparr>
      else t\<lparr>ts_year := ts_year t + 1, ts_month := 1, ts_day := 1\<rparr>)"

definition add_days :: "timestamp \<Rightarrow> nat \<Rightarrow> timestamp" where
  "add_days t n = (next_day ^^ n) t"

text \<open>
  The random numbers of \<^verbatim>\<open>np.random\<close>. The generator's state is threaded through the
  calls: each function takes the state and returns the number drawn and the next
  state. What is drawn is not fixed by the program, so the three functions are a
  parameter; \<open>rng_contract\<close> is what the library documents about them:
  \<^verbatim>\<open>randint(low, high)\<close> is an integer from \<open>low\<close> (inclusive) to \<open>high\<close> (exclusive),
  \<^verbatim>\<open>choice(xs)\<close> is an element of \<open>xs\<close>, and \<^verbatim>\<open>uniform(low, high)\<close> lies between \<open>low\<close>
  and \<open>high\<close> (the upper end can be reached by rounding).
\<close>

record 'g np_random =
  randint :: "nat \<Rightarrow> nat \<Rightarrow> 'g \<Rightarrow> nat \<times> 'g"
  choice :: "string list \<Rightarrow> 'g \<Rightarrow> string \<times> 'g"
  uniform :: "real \<Rightarrow> real \<Rightarrow> 'g \<Rightarrow> real \<times> 'g"

definition rng_contract :: "'g np_random \<Rightarrow> bool" where
  "rng_contract R \<longleftrightarrow>
     (\<forall>low high g. low < high \<longrightarrow>
        low \<le> fst (randint R low high g) \<and> fst (randint R low high g) < high) \<and>
     (\<forall>xs g. xs \<noteq> [] \<longrightarrow> fst (choice R xs g) \<in> set xs) \<and>
     (\<forall>low high g. low \<le> high \<longrightarrow>
        low \<le> fst (uniform R low high g) \<and> fst (uniform R low high g) \<le> high)"

text \<open>
  \<^verbatim>\<open>
  def random_date(start: datetime, end: datetime) -> datetime:
      delta = end - start
      random_days = np.random.randint(0, delta.days + 1)
      return start + timedelta(days=random_days)
  \<close>
  \<^verbatim>\<open>randint\<close> raises \<^verbatim>\<open>ValueError\<close> when \<open>high\<close> is not above \<open>low\<close>: the result
  \<open>Inl\<close>.
\<close>

definition random_date ::
  "'g np_random \<Rightarrow> timestamp \<Rightarrow> timestamp \<Rightarrow> 'g \<Rightarrow> string + (timestamp \<times> 'g)" where
  "random_date R start end g =
     (let delta_days = timedelta_days end start in
      if delta_days + 1 \<le> 0 then Inl ''low >= high''
      else (let (random_days, g') = randint R 0 (nat (delta_days + 1)) g
            in Inr (add_days start random_days, g')))"

text \<open>
  \<^verbatim>\<open>np.round(x, decimals)\<close> scales by a power of ten, rounds to the nearest integer, a
  half to the even neighbour, and scales back.
\<close>

definition rint :: "real \<Rightarrow> int" where
  "rint x = (let f = \<lfloor>x\<rfloor>; d = x - of_int f in
             if d < 1 / 2 then f else if 1 / 2 < d then f + 1
             else if even f then f else f + 1)"

definition np_round :: "real \<Rightarrow> nat \<Rightarrow> real" where
  "np_round x decimals = of_int (rint (x * 10 ^ decimals)) / 10 ^ decimals"

text \<open>
  \<^verbatim>\<open>strftime("%Y-%m-%d")\<close>: the year in four digits, the month and the day in two.
\<close>

definition digit_char :: "nat \<Rightarrow> char" where
  "digit_char n = ''0123456789'' ! (n mod 10)"

definition strftime_Ymd :: "timestamp \<Rightarrow> string" where
  "strftime_Ymd t =
     map digit_char [ts_year t div 1000, ts_year t div 100, ts_year t div 10, ts_year t]
     @ ''-'' @ map digit_char [ts_month t div 10, ts_month t]
     @ ''-'' @ map digit_char [ts_day t div 10, ts_day t]"

text \<open>
  \<^verbatim>\<open>
  records = []
  for _ in range(NUM_RECORDS):
      date     = random_date(START_DATE, END_DATE).strftime("%Y-%m-%d")
      crime    = np.random.choice(CRIME_TYPES)
      district = np.random.choice(DISTRICTS)
      lat      = np.round(np.random.uniform(LAT_MIN, LAT_MAX), 6)
      lon      = np.round(np.random.uniform(LON_MIN, LON_MAX), 6)
      records.append((date, crime, lat, lon, district))
  \<close>
  The loop over \<open>n\<close> iterations; the records are in the order in which they are appended.
\<close>

type_synonym gen_row = "string \<times> string \<times> real \<times> real \<times> string"

fun records_loop :: "'g np_random \<Rightarrow> nat \<Rightarrow> 'g \<Rightarrow> string + (gen_row list \<times> 'g)" where
  "records_loop R 0 g = Inr ([], g)"
| "records_loop R (Suc n) g =
     (case random_date R START_DATE END_DATE g of
        Inl e \<Rightarrow> Inl e
      | Inr (d, g1) \<Rightarrow>
          (let date = strftime_Ymd d;
               (crime, g2) = choice R CRIME_TYPES g1;
               (district, g3) = choice R DISTRICTS g2;
               (u, g4) = uniform R LAT_MIN LAT_MAX g3;
               lat = np_round u 6;
               (w, g5) = uniform R LON_MIN LON_MAX g4;
               lon = np_round w 6
           in case records_loop R n g5 of
                Inl e \<Rightarrow> Inl e
              | Inr (records, g') \<Rightarrow> Inr ((date, crime, lat, lon, district) # records, g')))"

text \<open>
  \<^verbatim>\<open>
  df = pd.DataFrame(records, columns=["Date", "Crime_Type", "Latitude", "Longitude", "District"])
  df.to_csv("crime_data.csv", index=False)
  \<close>
  A CSV file is the table of its cells: the header line and the data lines, each the
  list of its cell texts (the separators and the quoting, which encode the cells without
  loss, are left out). A number is written as its decimal text in positional notation,
  without trailing zeros and with at least one decimal; \<open>float_repr\<close> gives this text
  for a number with at most six decimals, which is what \<^verbatim>\<open>np.round(_, 6)\<close> returns.
  The files on disk are a map from paths to tables.
\<close>

type_synonym csv = "string list list"

definition COLUMNS :: "string list" where
  "COLUMNS = [''Date'', ''Crime_Type'', ''Latitude'', ''Longitude'', ''District'']"

function digits :: "nat \<Rightarrow> string" where
  "digits n = (if n < 10 then [digit_char n] else digits (n div 10) @ [digit_char n])"
  by pat_completeness auto
termination
  by (relation "measure id") auto

declare digits.simps [simp del]

definition strip_zeros :: "string \<Rightarrow> string" where
  "strip_zeros s = rev (dropWhile (\<lambda>c. c = CHR ''0'') (rev s))"

definition float_repr :: "real \<Rightarrow> string" where
  "float_repr v =
     (let a = nat \<lfloor>\<bar>v\<bar> * 10 ^ 6\<rfloor>;
          fraction = strip_zeros (map digit_char
                   [a div 100000, a div 10000, a div 1000, a div 100, a div 10, a])
      in (if v < 0 then ''-'' else []) @ digits (a div 10 ^ 6) @ ''.''
         @ (if fraction = [] then ''0'' else fraction))"

definition to_csv :: "gen_row list \<Rightarrow> csv" where
  "to_csv records =
     COLUMNS # map (\<lambda>(date, crime, lat, lon, district).
                      [date, crime, float_repr lat, float_repr lon, district]) records"

definition gen_crime_data ::
  "'g np_random \<Rightarrow> 'g \<Rightarrow> (string \<rightharpoonup> csv) \<Rightarrow> string + ((string \<rightharpoonup> csv) \<times> 'g)" where
  "gen_crime_data R g files =
     (case records_loop R NUM_RECORDS g of
        Inl e \<Rightarrow> Inl e
      | Inr (records, g') \<Rightarrow> Inr (files(''crime_data.csv'' \<mapsto> to_csv records), g'))"

section \<open>Reading a CSV table (pd.read_csv with parse_dates)\<close>

text \<open>
  What \<^verbatim>\<open>pd.read_csv(path, parse_dates=["Date"])\<close> answers on a table of cells, as far
  as the typed data frame of the dashboard can hold it. The columns are found by their
  names in the header. A line with more cells than the header is an error; an empty
  line is skipped. A date cell is read in the form \<^verbatim>\<open>YYYY-MM-DD\<close>, a number cell as a
  decimal number in positional notation, and a label cell is the missing value when it
  holds one of the library's markers of a missing value. A table that the typed frame
  cannot hold (a column of the five absent, a date or a number in another form) gives
  \<open>Inl\<close> here.
\<close>

definition digit_val :: "char \<Rightarrow> nat option" where
  "digit_val c = map_of (zip ''0123456789'' [0..<10]) c"

definition digits_value :: "string \<Rightarrow> nat" where
  "digits_value s = foldl (\<lambda>n c. 10 * n + the (digit_val c)) 0 s"

definition parse_nat :: "string \<Rightarrow> nat option" where
  "parse_nat s =
     (if s \<noteq> [] \<and> list_all (\<lambda>c. digit_val c \<noteq> None) s
      then Some (digits_value s) else None)"

definition parse_date :: "string \<Rightarrow> timestamp option" where
  "parse_date s =
     (if length s = 10 \<and> s ! 4 = CHR ''-'' \<and> s ! 7 = CHR ''-'' then
        (case (parse_nat (take 4 s), parse_nat (take 2 (drop 5 s)), parse_nat (drop 8 s)) of
           (Some y, Some m, Some d) \<Rightarrow>
             (let t = \<lparr>ts_year = y, ts_month = m, ts_day = d, ts_secs = 0\<rparr>
              in if valid_ts t then Some t else None)
         | _ \<Rightarrow> None)
      else None)"

definition parse_float :: "string \<Rightarrow> real option" where
  "parse_float s =
     (let neg = (s \<noteq> [] \<and> hd s = CHR ''-'');
          body = (if neg then tl s else s);
          sign = (if neg then - 1 else 1);
          whole = takeWhile (\<lambda>c. c \<noteq> CHR ''.'') body;
          rest = dropWhile (\<lambda>c. c \<noteq> CHR ''.'') body
      in case (parse_nat whole, rest) of
           (Some a, []) \<Rightarrow> Some (sign * real a)
         | (Some a, dot # fraction) \<Rightarrow>
             (case parse_nat fraction of
                Some f \<Rightarrow> Some (sign * (real a + real f / 10 ^ length fraction))
              | None \<Rightarrow> None)
         | (None, _) \<Rightarrow> None)"

definition na_values :: "string list" where
  "na_values = ['''', ''#N/A'', ''#N/A N/A'', ''#NA'', ''-1.#IND'', ''-1.#QNAN'', ''-NaN'',
                ''-nan'', ''1.#IND'', ''1.#QNAN'', ''<NA>'', ''N/A'', ''NA'', ''NULL'', ''NaN'',
                ''None'', ''n/a'', ''nan'', ''null'']"

definition read_label :: "string \<Rightarrow> string option" where
  "read_label s = (if s \<in> set na_values then None else Some s)"

definition read_row :: "string list \<Rightarrow> string list \<Rightarrow> incident option" where
  "read_row header line =
     (let cell = map_of (zip header line) in
      case (cell ''Date'', cell ''Crime_Type'', cell ''Latitude'', cell ''Longitude'',
            cell ''District'') of
        (Some d, Some c, Some la, Some lo, Some di) \<Rightarrow>
          (case (parse_date d, parse_float la, parse_float lo) of
             (Some t, Some x, Some y) \<Rightarrow>
               Some \<lparr>Date = t, Crime_Type = read_label c, Latitude = x, Longitude = y,
                     District = read_label di\<rparr>
           | _ \<Rightarrow> None)
      | _ \<Rightarrow> None)"

definition read_csv_table :: "csv \<Rightarrow> string + dataframe" where
  "read_csv_table table =
     (case table of
        [] \<Rightarrow> Inl ''No columns to parse from file''
      | header # lines \<Rightarrow>
          if ''Date'' \<notin> set header then Inl ''Missing column provided to parse_dates: Date''
          else if list_ex (\<lambda>line. length header < length line) lines
          then Inl ''Error tokenizing data''
          else (case those (map (read_row header) (filter (\<lambda>line. line \<noteq> ['''']) lines)) of
                  Some df \<Rightarrow> Inr df
                | None \<Rightarrow> Inl ''a value outside the typed data frame''))"

text \<open>
  The reader over the files on disk: a path is looked up in the files. What an upload
  holds is the parameter \<open>upload\<close>.
\<close>

definition pd_read_csv :: "(string \<rightharpoonup> csv) \<Rightarrow> (string \<Rightarrow> string + dataframe) \<Rightarrow> reader" where
  "pd_read_csv files upload src =
     (case src of
        FilePath path \<Rightarrow>
          (case files path of
             None \<Rightarrow> Inl ''No such file or directory''
           | Some table \<Rightarrow> read_csv_table table)
      | UploadedFile content \<Rightarrow> upload content)"

section \<open>Example rows\<close>

text \<open>A row with the given calendar day, crime type and district, at midnight.\<close>

definition row :: "nat \<Rightarrow> nat \<Rightarrow> nat \<Rightarrow> string \<Rightarrow> string \<Rightarrow> incident" where
  "row y m d c di = \<lparr>Date = \<lparr>ts_year = y, ts_month = m, ts_day = d, ts_secs = 0\<rparr>,
     Crime_Type = Some c, Latitude = 0, Longitude = 0, District = Some di\<rparr>"

text \<open>A reader for which every upload fails to parse and the default file holds one row.\<close>

definition example_reader :: reader where
  "example_reader src =
     (case src of
        UploadedFile content \<Rightarrow> Inl ''Missing column provided to parse_dates: Date''
      | FilePath path \<Rightarrow> Inr [row 2025 1 5 ''Theft'' ''Harare''])"

text \<open>
  A random number generator whose state is a counter; each draw is taken from the
  counter and the counter goes up by one.
\<close>

definition example_rng :: "nat np_random" where
  "example_rng =
     \<lparr>randint = (\<lambda>low high g. (low + g mod (high - low), g + 1)),
      choice = (\<lambda>xs g. (xs ! (g mod length xs), g + 1)),
      uniform = (\<lambda>low high g. (low + (high - low) * (real (g mod 100) / 100), g + 1))\<rparr>"

section \<open>The filter keeps exactly the matching rows\<close>

lemma boolean_index_map: "boolean_index df (map p df) = filter p df"
  by (induction df) (simp_all add: boolean_index_def)

lemma mask_and_map: "mask_and (map p df) (map q df) = map (\<lambda>r. p r \<and> q r) df"
  by (induction df) (simp_all add: mask_and_def)

lemma eq_scalar_iff: "eq_scalar x v \<longleftrightarrow> v \<noteq> None \<and> x = v"
  by (cases x) (auto simp: eq_scalar_def)

lemma mask_eq_map:
  "mask df start end category districts =
     map (\<lambda>r. between (dt_date (Date r)) start end \<and> isin (District r) districts \<and>
               (category = Some ''All'' \<or> (category \<noteq> None \<and> Crime_Type r = category))) df"
proof (cases "category = Some ''All''")
  case True
  then show ?thesis
    unfolding mask_def Let_def by (simp only: mask_and_map if_False simp_thms)
next
  case False
  then show ?thesis
    unfolding mask_def Let_def eq_scalar_iff
    by (simp only: mask_and_map if_True simp_thms conj_assoc)
qed

lemma filtered_eq_filter:
  "filtered df start end category districts =
     filter (\<lambda>r. between (dt_date (Date r)) start end \<and> isin (District r) districts \<and>
                  (category = Some ''All'' \<or> (category \<noteq> None \<and> Crime_Type r = category))) df"
  unfolding filtered_def mask_eq_map boolean_index_map ..

text \<open>
  C1. A row is in the filtered frame if and only if it is a row of the data frame, its
  calendar day lies between the start and the end date (both inclusive, the time of day
  playing no role), its district is one of the selected districts, and the category is
  the sentinel \<^verbatim>\<open>All\<close> or equals the row's crime type. Every such row is kept as often
  as it occurs in the data frame. (Where a label is missing: a row without a district
  is selected when the missing value is among the selected districts, and a row without
  a crime type equals no category, as in the source's comparison.)
\<close>

theorem filter_exact:
  "(r \<in> set (filtered D start end category districts) \<longleftrightarrow>
      r \<in> set D \<and> start \<le> dt_date (Date r) \<and> dt_date (Date r) \<le> end \<and>
      District r \<in> set districts \<and>
      (category = Some ''All'' \<or> (category \<noteq> None \<and> Crime_Type r = category)))
   \<and> count_list (filtered D start end category districts) r =
      (if start \<le> dt_date (Date r) \<and> dt_date (Date r) \<le> end \<and>
          District r \<in> set districts \<and>
          (category = Some ''All'' \<or> (category \<noteq> None \<and> Crime_Type r = category))
       then count_list D r else 0)"
proof -
  have cnt: "count_list (filter p xs) x = (if p x then count_list xs x else 0)"
    for p and xs :: "incident list" and x
    by (induction xs) auto
  show ?thesis
    unfolding filtered_eq_filter
    by (simp only: cnt) (auto simp: between_def isin_def)
qed

section \<open>Earliest and latest timestamp, month indices\<close>

lemma foldl_ts_max_mem: "foldl ts_max t ts \<in> set (t # ts)"
  by (induction ts arbitrary: t) (auto simp: ts_max_def)

lemma foldl_ts_min_mem: "foldl ts_min t ts \<in> set (t # ts)"
  by (induction ts arbitrary: t) (auto simp: ts_min_def)

lemma foldl_ts_max_ge_init: "ts_key t \<le> ts_key (foldl ts_max t ts)"
proof (induction ts arbitrary: t)
  case Nil
  show ?case by simp
next
  case (Cons a ts)
  have "ts_key t \<le> ts_key (ts_max t a)" by (auto simp: ts_max_def not_less intro: less_imp_le)
  also have "\<dots> \<le> ts_key (foldl ts_max (ts_max t a) ts)" by (rule Cons.IH)
  finally show ?case by simp
qed

lemma foldl_ts_max_ge: "x \<in> set (t # ts) \<Longrightarrow> ts_key x \<le> ts_key (foldl ts_max t ts)"
proof (induction ts arbitrary: t)
  case Nil
  then show ?case by simp
next
  case (Cons a ts)
  have step: "ts_key t \<le> ts_key (ts_max t a)" "ts_key a \<le> ts_key (ts_max t a)"
    by (auto simp: ts_max_def not_less intro: less_imp_le)
  from Cons.prems consider "x = t" | "x \<in> set (a # ts)" by auto
  then show ?case
  proof cases
    case 1
    with step(1) foldl_ts_max_ge_init [of "ts_max t a" ts] show ?thesis by simp
  next
    case 2
    then consider "x = a" | "x \<in> set ts" by auto
    then show ?thesis
    proof cases
      case 1
      with step(2) foldl_ts_max_ge_init [of "ts_max t a" ts] show ?thesis by simp
    next
      case 2
      then have "x \<in> set (ts_max t a # ts)" by simp
      from Cons.IH [OF this] show ?thesis by simp
    qed
  qed
qed

lemma foldl_ts_min_le_init: "ts_key (foldl ts_min t ts) \<le> ts_key t"
proof (induction ts arbitrary: t)
  case Nil
  show ?case by simp
next
  case (Cons a ts)
  have "ts_key (foldl ts_min (ts_min t a) ts) \<le> ts_key (ts_min t a)" by (rule Cons.IH)
  also have "\<dots> \<le> ts_key t" by (auto simp: ts_min_def not_less intro: less_imp_le)
  finally show ?case by simp
qed

lemma foldl_ts_min_le: "x \<in> set (t # ts) \<Longrightarrow> ts_key (foldl ts_min t ts) \<le> ts_key x"
proof (induction ts arbitrary: t)
  case Nil
  then show ?case by simp
next
  case (Cons a ts)
  have step: "ts_key (ts_min t a) \<le> ts_key t" "ts_key (ts_min t a) \<le> ts_key a"
    by (auto simp: ts_min_def not_less intro: less_imp_le)
  from Cons.prems consider "x = t" | "x = a" | "x \<in> set ts" by auto
  then show ?case
  proof cases
    case 1
    with step(1) foldl_ts_min_le_init [of "ts_min t a" ts] show ?thesis by simp
  next
    case 2
    with step(2) foldl_ts_min_le_init [of "ts_min t a" ts] show ?thesis by simp
  next
    case 3
    then have "x \<in> set (ts_min t a # ts)" by simp
    from Cons.IH [OF this] show ?thesis by simp
  qed
qed

lemma Series_max_Some:
  "col \<noteq> [] \<Longrightarrow> \<exists>hi. Series_max col = Some hi \<and> hi \<in> set col \<and> (\<forall>x\<in>set col. ts_key x \<le> ts_key hi)"
  by (cases col) (use foldl_ts_max_mem foldl_ts_max_ge in \<open>simp_all add: Series_max_def\<close>)

lemma Series_min_Some:
  "col \<noteq> [] \<Longrightarrow> \<exists>lo. Series_min col = Some lo \<and> lo \<in> set col \<and> (\<forall>x\<in>set col. ts_key lo \<le> ts_key x)"
  by (cases col) (use foldl_ts_min_mem foldl_ts_min_le in \<open>simp_all add: Series_min_def\<close>)

lemma Mnum_mono:
  assumes "ts_key a \<le> ts_key b" "ts_month a \<le> 12" "1 \<le> ts_month b"
  shows "Mnum a \<le> Mnum b"
proof -
  from assms(1) have "ts_year a < ts_year b \<or> (ts_year a = ts_year b \<and> ts_month a \<le> ts_month b)"
    by (auto simp: ts_key_def less_eq_prod_def less_prod_def)
  with assms(2,3) show ?thesis unfolding Mnum_def by auto
qed

lemma Mnum_month_end: "1 \<le> n \<Longrightarrow> Mnum (month_end n) = n"
  by (simp add: Mnum_def month_end_def Let_def)

lemma valid_Mnum_pos: "valid_ts t \<Longrightarrow> 1 \<le> Mnum t"
  by (simp add: valid_ts_def Mnum_def)

section \<open>The monthly series\<close>

lemma valid_df_iff: "valid_df F \<longleftrightarrow> (\<forall>r\<in>set F. valid_ts (Date r))"
  by (simp add: valid_df_def list_all_iff)

lemma Grouper_nil: "Grouper_ME_size [] = []"
  by (simp add: Grouper_ME_size_def Series_min_def)

lemma Grouper_bounds:
  assumes "col \<noteq> []" and "\<forall>t\<in>set col. valid_ts t"
  shows "\<exists>lo hi. Series_min col = Some lo \<and> Series_max col = Some hi \<and>
           Mnum lo = Min (Mnum ` set col) \<and> Mnum hi = Max (Mnum ` set col)"
proof -
  from Series_min_Some [OF assms(1)] obtain lo where
    lo: "Series_min col = Some lo" "lo \<in> set col" "\<forall>x\<in>set col. ts_key lo \<le> ts_key x"
    by blast
  from Series_max_Some [OF assms(1)] obtain hi where
    hi: "Series_max col = Some hi" "hi \<in> set col" "\<forall>x\<in>set col. ts_key x \<le> ts_key hi"
    by blast
  have month: "ts_month x \<le> 12 \<and> 1 \<le> ts_month x" if "x \<in> set col" for x
    using assms(2) that by (simp add: valid_ts_def)
  have "Mnum lo \<le> Mnum x" if "x \<in> set col" for x
    using Mnum_mono [of lo x] lo(2,3) month that by blast
  then have "Min (Mnum ` set col) = Mnum lo"
    using lo(2) by (intro Min_eqI) auto
  moreover have "Mnum x \<le> Mnum hi" if "x \<in> set col" for x
    using Mnum_mono [of x hi] hi(2,3) month that by blast
  then have "Max (Mnum ` set col) = Mnum hi"
    using hi(2) by (intro Max_eqI) auto
  ultimately show ?thesis using lo(1) hi(1) by simp
qed

lemma Grouper_valid:
  assumes "col \<noteq> []" and "\<forall>t\<in>set col. valid_ts t"
  shows "Grouper_ME_size col =
           map (\<lambda>n. (month_end n, length (filter (\<lambda>t. Mnum t = n) col)))
               [Min (Mnum ` set col) ..< Suc (Max (Mnum ` set col))]"
proof -
  from Grouper_bounds [OF assms] obtain lo hi where
    "Series_min col = Some lo" "Series_max col = Some hi"
    "Mnum lo = Min (Mnum ` set col)" "Mnum hi = Max (Mnum ` set col)"
    by blast
  then show ?thesis by (simp add: Grouper_ME_size_def)
qed


lemma map_Mnum_month_end: "1 \<le> a \<Longrightarrow> map (\<lambda>n. Mnum (month_end n)) [a..<b] = [a..<b]"
  by (rule map_idI) (simp add: Mnum_month_end)

lemma fig_ts_data_valid:
  assumes "valid_df F" and "F \<noteq> []"
  shows "fig_ts_data F =
           map (\<lambda>n. (month_end n, length (filter (\<lambda>r. Mnum (Date r) = n) F)))
               [Min ((\<lambda>r. Mnum (Date r)) ` set F) ..< Suc (Max ((\<lambda>r. Mnum (Date r)) ` set F))]"
proof -
  have ne: "map Date F \<noteq> []" using assms(2) by simp
  have v: "\<forall>t\<in>set (map Date F). valid_ts t" using assms(1) by (simp add: valid_df_iff)
  have len: "length (filter (\<lambda>t. Mnum t = n) (map Date F)) = length (filter (\<lambda>r. Mnum (Date r) = n) F)" for n
    by (simp add: filter_map comp_def)
  have img: "Mnum ` set (map Date F) = (\<lambda>r. Mnum (Date r)) ` set F"
    by (simp add: image_image)
  show ?thesis
    unfolding fig_ts_data_def Grouper_valid [OF ne v] len img ..
qed

text \<open>
  C2 (as amended). The monthly series of a non-empty filtered frame has one entry for
  every calendar month from the month of its earliest row to the month of its latest
  row, in order, each with the number of rows of that month; a month in between in
  which no row falls is listed with the count 0.
\<close>

theorem monthly_series_zero_filled:
  assumes "valid_df F" and "F \<noteq> []"
  shows "map (\<lambda>(d, c). Mnum d) (fig_ts_data F) =
           [Min ((\<lambda>r. Mnum (Date r)) ` set F) ..< Suc (Max ((\<lambda>r. Mnum (Date r)) ` set F))]
       \<and> map snd (fig_ts_data F) =
           map (\<lambda>n. length (filter (\<lambda>r. Mnum (Date r) = n) F))
             [Min ((\<lambda>r. Mnum (Date r)) ` set F) ..< Suc (Max ((\<lambda>r. Mnum (Date r)) ` set F))]"
proof -
  have pos: "1 \<le> Min ((\<lambda>r. Mnum (Date r)) ` set F)"
    using assms valid_Mnum_pos by (simp add: Min_ge_iff valid_df_iff)
  show ?thesis
    unfolding fig_ts_data_valid [OF assms]
    by (simp add: comp_def map_Mnum_month_end [OF pos] del: upt_Suc)
qed

lemmas eval_defs = row_def fig_ts_data_def filtered_def mask_def mask_and_def boolean_index_def
  between_def isin_def eq_scalar_def dt_date_def Grouper_ME_size_def Series_min_def Series_max_def ts_min_def
  ts_max_def ts_key_def Mnum_def month_end_def days_in_month_def is_leap_def Let_def
  less_prod_def less_eq_prod_def

text \<open>
  C2 (as stated) fails: with one row in January 2025 and one in March 2025, February
  2025 is in the series, with the count 0.
\<close>

theorem monthly_series_gap_counterexample:
  "fig_ts_data (filtered [row 2025 1 5 ''Theft'' ''Harare'', row 2025 3 7 ''Fraud'' ''Harare'']
            (2025, 1, 1) (2025, 5, 20) (Some ''All'') [Some ''Harare''])
   = [(\<lparr>ts_year = 2025, ts_month = 1, ts_day = 31, ts_secs = 0\<rparr>, 1),
      (\<lparr>ts_year = 2025, ts_month = 2, ts_day = 28, ts_secs = 0\<rparr>, 0),
      (\<lparr>ts_year = 2025, ts_month = 3, ts_day = 31, ts_secs = 0\<rparr>, 1)]"
  by (simp add: eval_defs upt_rec)

theorem monthly_series_zero_filled_witness:
  "valid_df [row 2025 1 5 ''Theft'' ''Harare'', row 2025 3 7 ''Fraud'' ''Harare''] \<and>
  map (\<lambda>(d, c). Mnum d) (fig_ts_data [row 2025 1 5 ''Theft'' ''Harare'', row 2025 3 7 ''Fraud'' ''Harare'']) = [24301, 24302, 24303]
  \<and> map snd (fig_ts_data [row 2025 1 5 ''Theft'' ''Harare'', row 2025 3 7 ''Fraud'' ''Harare'']) = [1, 0, 1]"
proof -
  let ?F = "[row 2025 1 5 ''Theft'' ''Harare'', row 2025 3 7 ''Fraud'' ''Harare'']"
  have v: "valid_df ?F" by (simp add: valid_df_def valid_ts_def row_def days_in_month_def is_leap_def)
  have ne: "?F \<noteq> []" by simp
  have mn: "Min ((\<lambda>r. Mnum (Date r)) ` set ?F) = 24301" by (simp add: row_def Mnum_def)
  have mx: "Max ((\<lambda>r. Mnum (Date r)) ` set ?F) = 24303" by (simp add: row_def Mnum_def)
  have upt_3: "[24301 ..< Suc 24303] = [24301, 24302, 24303::nat]"
    by (simp add: upt_rec)
  have c: "map (\<lambda>n. length (filter (\<lambda>r. Mnum (Date r) = n) ?F)) [24301, 24302, 24303::nat] = [1, 0, 1]"
    by (simp add: row_def Mnum_def)
  show ?thesis
    using monthly_series_zero_filled [OF v ne] v unfolding mn mx upt_3 c by simp
qed

section \<open>The summaries of an empty filtered frame\<close>

text \<open>
  C6. Where the filter keeps no row, the total and the two distinct counts are 0 and
  the monthly series, the crime-type breakdown and the district breakdown are empty:
  every summary is defined on the empty frame.
\<close>

theorem aggregate_empty:
  assumes "filtered D start end category districts = []"
  shows "tot (filtered D start end category districts) = 0
       \<and> ucat (filtered D start end category districts) = 0
       \<and> dud (filtered D start end category districts) = 0
       \<and> fig_ts_data (filtered D start end category districts) = []
       \<and> fig_pie_data (filtered D start end category districts) = []
       \<and> fig_bar_data (filtered D start end category districts) = []"
  unfolding assms
  by (simp add: tot_def ucat_def dud_def nunique_def fig_ts_data_def Grouper_nil
      fig_pie_data_def value_counts_def uniques_def fig_bar_data_def groupby_size_def)

theorem aggregate_empty_witness:
  "filtered [row 2025 1 5 ''Theft'' ''Harare'', row 2025 3 7 ''Fraud'' ''Gweru'']
     (2025, 1, 1) (2025, 5, 20) (Some ''All'') [] = []
   \<and> tot (filtered [row 2025 1 5 ''Theft'' ''Harare'', row 2025 3 7 ''Fraud'' ''Gweru'']
       (2025, 1, 1) (2025, 5, 20) (Some ''All'') []) = 0
   \<and> ucat (filtered [row 2025 1 5 ''Theft'' ''Harare'', row 2025 3 7 ''Fraud'' ''Gweru'']
       (2025, 1, 1) (2025, 5, 20) (Some ''All'') []) = 0
   \<and> dud (filtered [row 2025 1 5 ''Theft'' ''Harare'', row 2025 3 7 ''Fraud'' ''Gweru'']
       (2025, 1, 1) (2025, 5, 20) (Some ''All'') []) = 0
   \<and> fig_ts_data (filtered [row 2025 1 5 ''Theft'' ''Harare'', row 2025 3 7 ''Fraud'' ''Gweru'']
       (2025, 1, 1) (2025, 5, 20) (Some ''All'') []) = []
   \<and> fig_pie_data (filtered [row 2025 1 5 ''Theft'' ''Harare'', row 2025 3 7 ''Fraud'' ''Gweru'']
       (2025, 1, 1) (2025, 5, 20) (Some ''All'') []) = []
   \<and> fig_bar_data (filtered [row 2025 1 5 ''Theft'' ''Harare'', row 2025 3 7 ''Fraud'' ''Gweru'']
       (2025, 1, 1) (2025, 5, 20) (Some ''All'') []) = []"
proof -
  have e: "filtered [row 2025 1 5 ''Theft'' ''Harare'', row 2025 3 7 ''Fraud'' ''Gweru'']
     (2025, 1, 1) (2025, 5, 20) (Some ''All'') [] = []"
    by (simp add: eval_defs)
  from aggregate_empty [OF e] e show ?thesis by simp
qed

section \<open>The order of the monthly series\<close>

lemma month_end_key_mono:
  assumes "1 \<le> a" "a < b"
  shows "(ts_year (month_end a), ts_month (month_end a)) < (ts_year (month_end b), ts_month (month_end b))"
proof -
  from assms have lt: "a - 1 < b - 1" by simp
  then have le: "(a - 1) div 12 \<le> (b - 1) div 12" by (simp add: div_le_mono)
  have "(a - 1) div 12 < (b - 1) div 12 \<or> ((a - 1) div 12 = (b - 1) div 12 \<and> (a - 1) mod 12 < (b - 1) mod 12)"
  proof (cases "(a - 1) div 12 = (b - 1) div 12")
    case True
    have "(a - 1) = 12 * ((a - 1) div 12) + (a - 1) mod 12" by simp
    moreover have "(b - 1) = 12 * ((b - 1) div 12) + (b - 1) mod 12" by simp
    ultimately have "(a - 1) mod 12 < (b - 1) mod 12" using lt True by (metis nat_add_left_cancel_less)
    with True show ?thesis by simp
  next
    case False
    with le show ?thesis by simp
  qed
  then show ?thesis
    by (auto simp: month_end_def Let_def less_prod_def less_eq_prod_def)
qed

lemma sorted_wrt_map_upt:
  assumes "\<And>i j. a \<le> i \<Longrightarrow> i < j \<Longrightarrow> R (f i) (f j)"
  shows "sorted_wrt R (map f [a..<b])"
  using assms by (simp add: sorted_wrt_map sorted_wrt_iff_nth_less del: upt_Suc)

text \<open>
  C7. The year and month keys of the monthly series are strictly increasing: the
  series is in chronological order and no calendar month occurs twice.
\<close>

theorem monthly_series_strictly_increasing:
  assumes "valid_df F"
  shows "sorted_wrt (<) (map (\<lambda>(d, c). (ts_year d, ts_month d)) (fig_ts_data F))
       \<and> distinct (map (\<lambda>(d, c). (ts_year d, ts_month d)) (fig_ts_data F))"
proof (cases "F = []")
  case True
  then show ?thesis by (simp add: fig_ts_data_def Grouper_nil)
next
  case False
  let ?lo = "Min ((\<lambda>r. Mnum (Date r)) ` set F)"
  let ?hi = "Max ((\<lambda>r. Mnum (Date r)) ` set F)"
  have pos: "1 \<le> ?lo"
    using assms False valid_Mnum_pos by (simp add: Min_ge_iff valid_df_iff)
  have keys: "map (\<lambda>(d, c). (ts_year d, ts_month d)) (fig_ts_data F) =
          map (\<lambda>n. (ts_year (month_end n), ts_month (month_end n))) [?lo..<Suc ?hi]"
    unfolding fig_ts_data_valid [OF assms False] by (simp add: comp_def del: upt_Suc)
  have s: "sorted_wrt (<) (map (\<lambda>n. (ts_year (month_end n), ts_month (month_end n))) [?lo..<Suc ?hi])"
    by (rule sorted_wrt_map_upt) (use pos month_end_key_mono in auto)
  have "distinct (map (\<lambda>n. (ts_year (month_end n), ts_month (month_end n))) [?lo..<Suc ?hi])"
    using s by (simp add: strict_sorted_iff)
  with s keys show ?thesis by simp
qed

theorem monthly_series_strictly_increasing_witness:
  "valid_df [row 2025 1 5 ''Theft'' ''Harare'', row 2025 3 7 ''Fraud'' ''Gweru'']
   \<and> sorted_wrt (<) (map (\<lambda>(d, c). (ts_year d, ts_month d))
        (fig_ts_data [row 2025 1 5 ''Theft'' ''Harare'', row 2025 3 7 ''Fraud'' ''Gweru'']))
   \<and> distinct (map (\<lambda>(d, c). (ts_year d, ts_month d))
        (fig_ts_data [row 2025 1 5 ''Theft'' ''Harare'', row 2025 3 7 ''Fraud'' ''Gweru'']))"
proof -
  have v: "valid_df [row 2025 1 5 ''Theft'' ''Harare'', row 2025 3 7 ''Fraud'' ''Gweru'']"
    by (simp add: valid_df_def valid_ts_def row_def days_in_month_def is_leap_def)
  from monthly_series_strictly_increasing [OF v] v show ?thesis by simp
qed

section \<open>Every row is counted once in each grouping\<close>

lemma sum_list_count_distinct:
  assumes "distinct ys" and "set ys = set xs"
  shows "sum_list (map (count_list xs) ys) = length xs"
proof -
  have "sum_list (map (count_list xs) ys) = sum (count_list xs) (set ys)"
    using assms(1) by (rule sum_list_distinct_conv_sum_set)
  also have "\<dots> = length xs"
    unfolding assms(2) by (rule sum_count_set) simp_all
  finally show ?thesis .
qed

lemma sum_snd_insort_key:
  "sum_list (map snd (insort_key f x xs)) = snd x + sum_list (map snd xs)"
  for x :: "'a \<times> nat"
  by (induction xs) (simp_all add: add.left_commute)

lemma sum_snd_sort_key:
  "sum_list (map snd (sort_key f xs)) = sum_list (map snd xs)"
  for xs :: "('a \<times> nat) list"
  by (induction xs) (simp_all add: sum_snd_insort_key)

lemma sum_value_counts: "sum_list (map snd (value_counts col)) = length (dropna col)"
proof -
  have "sum_list (map snd (value_counts col)) =
          sum_list (map (count_list (dropna col)) (uniques (dropna col)))"
    unfolding value_counts_def sum_snd_sort_key by (simp add: comp_def)
  also have "\<dots> = length (dropna col)"
    by (rule sum_list_count_distinct) (simp_all add: uniques_def)
  finally show ?thesis .
qed

lemma sum_groupby_size: "sum_list (map snd (groupby_size col)) = length (dropna col)"
proof -
  have "sum_list (map snd (groupby_size col)) =
          sum_list (map (count_list (dropna col)) (sort (remdups (dropna col))))"
    unfolding groupby_size_def by (simp add: comp_def)
  also have "\<dots> = length (dropna col)"
    by (rule sum_list_count_distinct) simp_all
  finally show ?thesis .
qed

lemma length_dropna:
  "length (dropna (map f F)) + length (filter (\<lambda>r. f r = None) F) = length F"
proof (induction F)
  case Nil
  show ?case by simp
next
  case (Cons r F)
  then show ?case by (cases "f r") simp_all
qed

lemma sum_one_bin:
  "sum_list (map (\<lambda>n. if k = n then 1 else 0) [a..<b]) = (if a \<le> k \<and> k < b then 1 else (0::nat))"
proof -
  have "sum_list (map (\<lambda>n. if k = n then 1 else 0) [a..<b]) = (\<Sum>n\<in>{a..<b}. if k = n then 1 else (0::nat))"
    by (simp add: interv_sum_list_conv_sum_set_nat)
  also have "\<dots> = (if k \<in> {a..<b} then 1 else 0)"
    by (rule sum.delta') simp
  finally show ?thesis by simp
qed

lemma sum_bins:
  assumes "\<forall>t\<in>set col. a \<le> f t \<and> f t < b"
  shows "sum_list (map (\<lambda>n. length (filter (\<lambda>t. f t = n) col)) [a..<b]) = length col"
  using assms
proof (induction col)
  case Nil
  show ?case by simp
next
  case (Cons t col)
  have split: "length (filter (\<lambda>t. f t = n) (t # col)) =
      (if f t = n then 1 else 0) + length (filter (\<lambda>t. f t = n) col)" for n
    by simp
  have "sum_list (map (\<lambda>n. length (filter (\<lambda>t. f t = n) (t # col))) [a..<b]) =
      sum_list (map (\<lambda>n. if f t = n then 1 else 0) [a..<b]) +
      sum_list (map (\<lambda>n. length (filter (\<lambda>t. f t = n) col)) [a..<b])"
    unfolding split by (rule sum_list_addf)
  also have "\<dots> = 1 + length col"
    using Cons by (simp add: sum_one_bin)
  finally show ?case by simp
qed

lemma sum_fig_ts_data:
  assumes "valid_df F"
  shows "sum_list (map snd (fig_ts_data F)) = length F"
proof (cases "F = []")
  case True
  then show ?thesis by (simp add: fig_ts_data_def Grouper_nil)
next
  case False
  let ?f = "\<lambda>r. Mnum (Date r)"
  have "\<forall>r\<in>set F. Min (?f ` set F) \<le> ?f r \<and> ?f r < Suc (Max (?f ` set F))"
    by (simp add: less_Suc_eq_le)
  from sum_bins [of F _ ?f, OF this] show ?thesis
    unfolding fig_ts_data_valid [OF assms False] by (simp add: comp_def del: upt_Suc)
qed

text \<open>
  C9 (as stated) fails: a row whose crime type is missing is kept by the filter and
  counted in the total, but it is in no entry of the crime-type breakdown. With one row
  of type \<^verbatim>\<open>Theft\<close> and one row without a crime type, both in the selected district
  and the selected dates, the total is 2 and the counts of the breakdown sum to 1.
\<close>

theorem aggregate_counts_missing_label_counterexample:
  "tot (filtered
      [row 2025 1 5 ''Theft'' ''Harare'',
       \<lparr>Date = \<lparr>ts_year = 2025, ts_month = 1, ts_day = 6, ts_secs = 0\<rparr>,
        Crime_Type = None, Latitude = 0, Longitude = 0, District = Some ''Harare''\<rparr>]
      (2025, 1, 5) (2025, 1, 6) (Some ''All'') [Some ''Harare'']) = 2
   \<and> fig_pie_data (filtered
      [row 2025 1 5 ''Theft'' ''Harare'',
       \<lparr>Date = \<lparr>ts_year = 2025, ts_month = 1, ts_day = 6, ts_secs = 0\<rparr>,
        Crime_Type = None, Latitude = 0, Longitude = 0, District = Some ''Harare''\<rparr>]
      (2025, 1, 5) (2025, 1, 6) (Some ''All'') [Some ''Harare'']) = [(''Theft'', 1)]
   \<and> sum_list (map snd (fig_pie_data (filtered
      [row 2025 1 5 ''Theft'' ''Harare'',
       \<lparr>Date = \<lparr>ts_year = 2025, ts_month = 1, ts_day = 6, ts_secs = 0\<rparr>,
        Crime_Type = None, Latitude = 0, Longitude = 0, District = Some ''Harare''\<rparr>]
      (2025, 1, 5) (2025, 1, 6) (Some ''All'') [Some ''Harare'']))) = 1"
  by (simp add: tot_def fig_pie_data_def value_counts_def uniques_def row_def filtered_def
      mask_def mask_and_def boolean_index_def between_def isin_def dt_date_def Let_def
      less_eq_prod_def less_prod_def)

text \<open>
  C9 (as amended). On a frame whose rows carry calendar days, the total equals the sum of
  the counts of the monthly series; it equals the sum of the counts of the crime-type
  breakdown plus the number of rows without a crime type, and the sum of the counts of
  the district breakdown plus the number of rows without a district. Where no label is
  missing, the total and the three sums are equal.
\<close>

theorem aggregate_counts_up_to_missing:
  assumes "valid_df F"
  shows "tot F = sum_list (map snd (fig_ts_data F))
       \<and> tot F = sum_list (map snd (fig_pie_data F))
                 + length (filter (\<lambda>r. Crime_Type r = None) F)
       \<and> tot F = sum_list (map snd (fig_bar_data F))
                 + length (filter (\<lambda>r. District r = None) F)"
  by (simp add: tot_def fig_pie_data_def fig_bar_data_def sum_value_counts sum_groupby_size
      sum_fig_ts_data [OF assms] length_dropna)

theorem aggregate_counts_up_to_missing_witness:
  "valid_df [row 2025 1 5 ''Theft'' ''Harare'',
       \<lparr>Date = \<lparr>ts_year = 2025, ts_month = 3, ts_day = 7, ts_secs = 0\<rparr>,
        Crime_Type = None, Latitude = 0, Longitude = 0, District = Some ''Gweru''\<rparr>]
   \<and> tot [row 2025 1 5 ''Theft'' ''Harare'',
       \<lparr>Date = \<lparr>ts_year = 2025, ts_month = 3, ts_day = 7, ts_secs = 0\<rparr>,
        Crime_Type = None, Latitude = 0, Longitude = 0, District = Some ''Gweru''\<rparr>] = 2
   \<and> sum_list (map snd (fig_ts_data [row 2025 1 5 ''Theft'' ''Harare'',
       \<lparr>Date = \<lparr>ts_year = 2025, ts_month = 3, ts_day = 7, ts_secs = 0\<rparr>,
        Crime_Type = None, Latitude = 0, Longitude = 0, District = Some ''Gweru''\<rparr>])) = 2
   \<and> sum_list (map snd (fig_pie_data [row 2025 1 5 ''Theft'' ''Harare'',
       \<lparr>Date = \<lparr>ts_year = 2025, ts_month = 3, ts_day = 7, ts_secs = 0\<rparr>,
        Crime_Type = None, Latitude = 0, Longitude = 0, District = Some ''Gweru''\<rparr>])) = 1
   \<and> sum_list (map snd (fig_bar_data [row 2025 1 5 ''Theft'' ''Harare'',
       \<lparr>Date = \<lparr>ts_year = 2025, ts_month = 3, ts_day = 7, ts_secs = 0\<rparr>,
        Crime_Type = None, Latitude = 0, Longitude = 0, District = Some ''Gweru''\<rparr>])) = 2"
proof -
  let ?F = "[row 2025 1 5 ''Theft'' ''Harare'',
       \<lparr>Date = \<lparr>ts_year = 2025, ts_month = 3, ts_day = 7, ts_secs = 0\<rparr>,
        Crime_Type = None, Latitude = 0, Longitude = 0, District = Some ''Gweru''\<rparr>]"
  have v: "valid_df ?F"
    by (simp add: valid_df_def valid_ts_def row_def days_in_month_def is_leap_def)
  have t: "tot ?F = 2"
    by (simp add: tot_def)
  have c: "length (filter (\<lambda>r. Crime_Type r = None) ?F) = 1"
    by (simp add: row_def)
  have d: "length (filter (\<lambda>r. District r = None) ?F) = 0"
    by (simp add: row_def)
  from aggregate_counts_up_to_missing [OF v] v show ?thesis
    unfolding t c d by simp
qed

section \<open>The forecast\<close>

lemma hist_eq:
  "hist df pdist = Grouper_ME_size (map Date (filter (\<lambda>r. eq_scalar (District r) pdist) df))"
  by (simp add: hist_def boolean_index_map)


lemmas forecast_eval_defs = row_def hist_def eq_scalar_def boolean_index_def Grouper_ME_size_def Series_min_def
  Series_max_def ts_min_def ts_max_def ts_key_def Mnum_def month_end_def days_in_month_def
  is_leap_def Let_def less_prod_def less_eq_prod_def


lemma nm_valid:
  assumes "valid_df df" and "df \<noteq> []"
  shows "nm df = Some (Max ((\<lambda>r. Mnum (Date r)) ` set df) + 1)"
proof -
  have ne: "map Date df \<noteq> []" using assms(2) by simp
  have v: "\<forall>t\<in>set (map Date df). valid_ts t" using assms(1) by (simp add: valid_df_iff)
  from Grouper_bounds [OF ne v] obtain hi where
    "Series_max (map Date df) = Some hi" "Mnum hi = Max (Mnum ` set (map Date df))"
    by blast
  then show ?thesis by (simp add: nm_def Mnum_def image_image)
qed

lemma hist_nonempty: "hist df pdist \<noteq> [] \<Longrightarrow> df \<noteq> []"
  by (auto simp: hist_eq Grouper_nil)

lemma forecast_predicted:
  assumes "SKLEARN_AVAILABLE" and "1 < length (hist df pdist)" and "nm df = Some n"
  shows "forecast SKLEARN_AVAILABLE df pdist =
           Predicted (predict (fit (map (\<lambda>(d, c). real (Mnum d)) (hist df pdist))
                                   (map (\<lambda>(d, c). real c) (hist df pdist))) (real n))"
  using assms by (simp add: forecast_def Let_def)

text \<open>
  C3. Whenever a forecast is made for a district, the fitted line is evaluated at the
  largest month index \<^verbatim>\<open>year*12 + month\<close> over all rows of the whole data frame, plus
  one: the month after the latest date of the data set, not of the district.
\<close>

theorem forecast_anchor_global:
  assumes "SKLEARN_AVAILABLE" and "valid_df df" and "1 < length (hist df pdist)"
  shows "nm df = Some (Max ((\<lambda>r. Mnum (Date r)) ` set df) + 1)
       \<and> forecast SKLEARN_AVAILABLE df pdist =
           Predicted (predict (fit (map (\<lambda>(d, c). real (Mnum d)) (hist df pdist))
                                   (map (\<lambda>(d, c). real c) (hist df pdist)))
                              (real (Max ((\<lambda>r. Mnum (Date r)) ` set df) + 1)))"
proof -
  from assms(3) have "hist df pdist \<noteq> []" by auto
  then have "df \<noteq> []" by (rule hist_nonempty)
  from nm_valid [OF assms(2) this] forecast_predicted [OF assms(1,3)] show ?thesis by simp
qed

theorem forecast_anchor_global_witness:
  "valid_df [row 2025 1 5 ''Theft'' ''Harare'', row 2025 3 7 ''Fraud'' ''Harare'',
             row 2025 6 7 ''Fraud'' ''Gweru'']
   \<and> hist [row 2025 1 5 ''Theft'' ''Harare'', row 2025 3 7 ''Fraud'' ''Harare'',
            row 2025 6 7 ''Fraud'' ''Gweru''] (Some ''Harare'')
       = [(\<lparr>ts_year = 2025, ts_month = 1, ts_day = 31, ts_secs = 0\<rparr>, 1),
          (\<lparr>ts_year = 2025, ts_month = 2, ts_day = 28, ts_secs = 0\<rparr>, 0),
          (\<lparr>ts_year = 2025, ts_month = 3, ts_day = 31, ts_secs = 0\<rparr>, 1)]
   \<and> nm [row 2025 1 5 ''Theft'' ''Harare'', row 2025 3 7 ''Fraud'' ''Harare'',
          row 2025 6 7 ''Fraud'' ''Gweru''] = Some 24307
   \<and> forecast True [row 2025 1 5 ''Theft'' ''Harare'', row 2025 3 7 ''Fraud'' ''Harare'',
          row 2025 6 7 ''Fraud'' ''Gweru''] (Some ''Harare'')
       = Predicted (predict (fit [24301, 24302, 24303] [1, 0, 1]) 24307)"
proof -
  let ?D = "[row 2025 1 5 ''Theft'' ''Harare'', row 2025 3 7 ''Fraud'' ''Harare'',
             row 2025 6 7 ''Fraud'' ''Gweru'']"
  have v: "valid_df ?D"
    by (simp add: valid_df_def valid_ts_def row_def days_in_month_def is_leap_def)
  have h: "hist ?D (Some ''Harare'')
       = [(\<lparr>ts_year = 2025, ts_month = 1, ts_day = 31, ts_secs = 0\<rparr>, 1),
          (\<lparr>ts_year = 2025, ts_month = 2, ts_day = 28, ts_secs = 0\<rparr>, 0),
          (\<lparr>ts_year = 2025, ts_month = 3, ts_day = 31, ts_secs = 0\<rparr>, 1)]"
    by (simp add: forecast_eval_defs upt_rec)
  have len: "1 < length (hist ?D (Some ''Harare''))" unfolding h by simp
  have mx: "Max ((\<lambda>r. Mnum (Date r)) ` set ?D) = 24306" by (simp add: row_def Mnum_def)
  from forecast_anchor_global [OF TrueI v len] v h show ?thesis
    unfolding mx by (simp add: Mnum_def)
qed

section \<open>The least-squares line of an exactly linear trend\<close>







section \<open>A failed upload\<close>

text \<open>
  C10. If a file is uploaded and reading it raises an exception, \<^verbatim>\<open>upload_csv\<close> reports
  the error on the sidebar and returns \<^verbatim>\<open>None\<close>; the data frame is then loaded from
  the default path, exactly as when no file was uploaded.
\<close>

theorem failed_upload_falls_back:
  assumes "read_csv (UploadedFile f) = Inl e"
  shows "upload_csv read_csv (Some f) = (None, [Error_loading_CSV e])
       \<and> fst (load_df read_csv (Some f)) = fst (load_df read_csv None)
       \<and> fst (load_df read_csv (Some f)) = load_data read_csv ''crime_data.csv''"
  using assms by (simp add: upload_csv_def load_df_def)

theorem failed_upload_falls_back_witness:
  "example_reader (UploadedFile ''a,b'') = Inl ''Missing column provided to parse_dates: Date''
   \<and> upload_csv example_reader (Some ''a,b'')
       = (None, [Error_loading_CSV ''Missing column provided to parse_dates: Date''])
   \<and> fst (load_df example_reader (Some ''a,b'')) = fst (load_df example_reader None)
   \<and> fst (load_df example_reader (Some ''a,b'')) = Inr [row 2025 1 5 ''Theft'' ''Harare'']"
proof -
  have e: "example_reader (UploadedFile ''a,b'') = Inl ''Missing column provided to parse_dates: Date''"
    by (simp add: example_reader_def)
  have d: "load_data example_reader ''crime_data.csv'' = Inr [row 2025 1 5 ''Theft'' ''Harare'']"
    by (simp add: load_data_def example_reader_def)
  note t = failed_upload_falls_back [of example_reader "''a,b''", OF e]
  show ?thesis
    by (intro conjI)
       (rule e, rule t [THEN conjunct1], rule t [THEN conjunct2, THEN conjunct1],
        rule t [THEN conjunct2, THEN conjunct2, unfolded d])
qed

section \<open>Dates as text\<close>

lemma mod10_cases:
  "n mod 10 = 0 \<or> n mod 10 = 1 \<or> n mod 10 = 2 \<or> n mod 10 = 3 \<or> n mod 10 = 4 \<or>
   n mod 10 = 5 \<or> n mod 10 = 6 \<or> n mod 10 = 7 \<or> n mod 10 = 8 \<or> n mod 10 = (9::nat)"
  by arith

lemma digit_val_digit_char: "digit_val (digit_char n) = Some (n mod 10)"
  using mod10_cases [of n] unfolding digit_char_def digit_val_def
  by (auto simp: upt_rec)

lemma digit_char_not_dot: "digit_char n \<noteq> CHR ''.''"
  using digit_val_digit_char [of n] by (auto simp: digit_val_def upt_rec)

lemma digit_char_not_minus: "digit_char n \<noteq> CHR ''-''"
  using digit_val_digit_char [of n] by (auto simp: digit_val_def upt_rec)

lemma digits_value_snoc: "digits_value (s @ [c]) = 10 * digits_value s + the (digit_val c)"
  by (simp add: digits_value_def)

lemma digits_value_map_digit_char:
  "digits_value (map digit_char ns) = foldl (\<lambda>n d. 10 * n + d mod 10) 0 ns"
proof (induction ns rule: rev_induct)
  case Nil
  show ?case by (simp add: digits_value_def)
next
  case (snoc d ns)
  then show ?case by (simp add: digits_value_snoc digit_val_digit_char)
qed

lemma parse_nat_map_digit_char:
  "ns \<noteq> [] \<Longrightarrow> parse_nat (map digit_char ns) = Some (foldl (\<lambda>n d. 10 * n + d mod 10) 0 ns)"
  by (simp add: parse_nat_def digits_value_map_digit_char list_all_iff digit_val_digit_char)

lemma four_digits:
  fixes y :: nat
  assumes "y < 10000"
  shows "10 * (10 * (10 * (y div 1000 mod 10) + y div 100 mod 10) + y div 10 mod 10) + y mod 10 = y"
proof -
  have a: "y div 1000 mod 10 = y div 1000" using assms by simp
  have "y div 1000 = y div 100 div 10" by (simp add: div_mult2_eq [symmetric])
  then have b: "10 * (y div 1000) + y div 100 mod 10 = y div 100" by simp
  have "y div 100 = y div 10 div 10" by (simp add: div_mult2_eq [symmetric])
  then have c: "10 * (y div 100) + y div 10 mod 10 = y div 10" by simp
  show ?thesis unfolding a b c by simp
qed

lemma two_digits: "m < 100 \<Longrightarrow> 10 * (m div 10 mod 10) + m mod 10 = m" for m :: nat
  by simp

lemma parse_date_strftime:
  assumes "valid_ts t" and "ts_year t < 10000" and "ts_secs t = 0"
  shows "parse_date (strftime_Ymd t) = Some t"
proof -
  have m: "ts_month t < 100" and d: "ts_day t < 100"
    using assms(1) by (auto simp: valid_ts_def days_in_month_def split: if_splits)
  have y: "parse_nat [digit_char (ts_year t div 1000), digit_char (ts_year t div 100),
                      digit_char (ts_year t div 10), digit_char (ts_year t)] = Some (ts_year t)"
    using parse_nat_map_digit_char
      [of "[ts_year t div 1000, ts_year t div 100, ts_year t div 10, ts_year t]"]
      four_digits [OF assms(2)] assms(2) by simp
  have mm: "parse_nat [digit_char (ts_month t div 10), digit_char (ts_month t)] = Some (ts_month t)"
    using parse_nat_map_digit_char [of "[ts_month t div 10, ts_month t]"] two_digits [OF m]
    by simp
  have dd: "parse_nat [digit_char (ts_day t div 10), digit_char (ts_day t)] = Some (ts_day t)"
    using parse_nat_map_digit_char [of "[ts_day t div 10, ts_day t]"] two_digits [OF d]
    by simp
  have t: "\<lparr>ts_year = ts_year t, ts_month = ts_month t, ts_day = ts_day t, ts_secs = 0\<rparr> = t"
    using assms(3) by simp
  show ?thesis
    unfolding parse_date_def strftime_Ymd_def
    using y mm dd assms(1) by (simp add: t)
qed

section \<open>The dates and the coordinates the generator draws\<close>

lemma timedelta_days_config: "timedelta_days END_DATE START_DATE = 139"
  by (simp add: timedelta_days_def toordinal_def END_DATE_def START_DATE_def days_before_year_def
     days_before_month_def days_in_month_def is_leap_def upt_rec)

lemma add_days_add: "add_days t (a + b) = add_days (add_days t a) b"
  by (simp add: add_days_def funpow_add add.commute [of a b])

lemma add_days_within:
  "d + j \<le> days_in_month y m \<Longrightarrow>
     add_days \<lparr>ts_year = y, ts_month = m, ts_day = d, ts_secs = s\<rparr> j
       = \<lparr>ts_year = y, ts_month = m, ts_day = d + j, ts_secs = s\<rparr>"
proof (induction j)
  case 0
  show ?case by (simp add: add_days_def)
next
  case (Suc j)
  then have "add_days \<lparr>ts_year = y, ts_month = m, ts_day = d, ts_secs = s\<rparr> j
       = \<lparr>ts_year = y, ts_month = m, ts_day = d + j, ts_secs = s\<rparr>" by simp
  moreover have "add_days t (Suc j) = next_day (add_days t j)" for t
    by (simp add: add_days_def)
  moreover have "d + j < days_in_month y m" using Suc.prems by simp
  ultimately show ?case by (simp add: next_day_def)
qed

lemma add_days_next_month:
  assumes "m < 12"
  shows "add_days \<lparr>ts_year = y, ts_month = m, ts_day = 1, ts_secs = s\<rparr> (days_in_month y m)
           = \<lparr>ts_year = y, ts_month = m + 1, ts_day = 1, ts_secs = s\<rparr>"
proof -
  have pos: "1 \<le> days_in_month y m" by (simp add: days_in_month_def)
  then obtain j where j: "days_in_month y m = Suc j" by (cases "days_in_month y m") auto
  have "add_days \<lparr>ts_year = y, ts_month = m, ts_day = 1, ts_secs = s\<rparr> j
       = \<lparr>ts_year = y, ts_month = m, ts_day = 1 + j, ts_secs = s\<rparr>"
    by (rule add_days_within) (simp add: j)
  then have "add_days \<lparr>ts_year = y, ts_month = m, ts_day = 1, ts_secs = s\<rparr> (Suc j)
       = next_day \<lparr>ts_year = y, ts_month = m, ts_day = Suc j, ts_secs = s\<rparr>"
    by (simp add: add_days_def)
  also have "\<dots> = \<lparr>ts_year = y, ts_month = m + 1, ts_day = 1, ts_secs = s\<rparr>"
    using assms by (simp add: next_day_def j)
  finally show ?thesis unfolding j .
qed

lemma days_in_month_2025:
  "days_in_month 2025 1 = 31" "days_in_month 2025 2 = 28" "days_in_month 2025 3 = 31"
  "days_in_month 2025 4 = 30" "days_in_month 2025 5 = 31"
  by (simp_all add: days_in_month_def is_leap_def)

lemma add_days_config_months:
  "add_days START_DATE 31 = \<lparr>ts_year = 2025, ts_month = 2, ts_day = 1, ts_secs = 0\<rparr>"
  "add_days START_DATE 59 = \<lparr>ts_year = 2025, ts_month = 3, ts_day = 1, ts_secs = 0\<rparr>"
  "add_days START_DATE 90 = \<lparr>ts_year = 2025, ts_month = 4, ts_day = 1, ts_secs = 0\<rparr>"
  "add_days START_DATE 120 = \<lparr>ts_year = 2025, ts_month = 5, ts_day = 1, ts_secs = 0\<rparr>"
proof -
  have lt: "(1::nat) < 12" "(2::nat) < 12" "(3::nat) < 12" "(4::nat) < 12" by simp_all
  have n: "(1::nat) + 1 = 2" "(2::nat) + 1 = 3" "(3::nat) + 1 = 4" "(4::nat) + 1 = 5"
    by simp_all
  have k: "(59::nat) = 31 + 28" "(90::nat) = 59 + 31" "(120::nat) = 90 + 30" by simp_all
  show m2: "add_days START_DATE 31 = \<lparr>ts_year = 2025, ts_month = 2, ts_day = 1, ts_secs = 0\<rparr>"
    unfolding START_DATE_def
    by (rule add_days_next_month [of 1 2025 0, OF lt(1), unfolded days_in_month_2025 n])
  show m3: "add_days START_DATE 59 = \<lparr>ts_year = 2025, ts_month = 3, ts_day = 1, ts_secs = 0\<rparr>"
    unfolding k(1) add_days_add m2
    by (rule add_days_next_month [of 2 2025 0, OF lt(2), unfolded days_in_month_2025 n])
  show m4: "add_days START_DATE 90 = \<lparr>ts_year = 2025, ts_month = 4, ts_day = 1, ts_secs = 0\<rparr>"
    unfolding k(2) add_days_add m3
    by (rule add_days_next_month [of 3 2025 0, OF lt(3), unfolded days_in_month_2025 n])
  show "add_days START_DATE 120 = \<lparr>ts_year = 2025, ts_month = 5, ts_day = 1, ts_secs = 0\<rparr>"
    unfolding k(3) add_days_add m4
    by (rule add_days_next_month [of 4 2025 0, OF lt(4), unfolded days_in_month_2025 n])
qed

lemma add_days_config:
  assumes "k \<le> 139"
  shows "\<exists>m d. add_days START_DATE k = \<lparr>ts_year = 2025, ts_month = m, ts_day = d, ts_secs = 0\<rparr>
           \<and> 1 \<le> m \<and> m \<le> 5 \<and> 1 \<le> d \<and> d \<le> days_in_month 2025 m \<and> (m = 5 \<longrightarrow> d \<le> 20)"
proof -
  have within: "\<exists>m' d'. add_days START_DATE (a + j)
            = \<lparr>ts_year = 2025, ts_month = m', ts_day = d', ts_secs = 0\<rparr>
           \<and> 1 \<le> m' \<and> m' \<le> 5 \<and> 1 \<le> d' \<and> d' \<le> days_in_month 2025 m' \<and> (m' = 5 \<longrightarrow> d' \<le> 20)"
    if "add_days START_DATE a = \<lparr>ts_year = 2025, ts_month = m, ts_day = 1, ts_secs = 0\<rparr>"
      and "1 + j \<le> days_in_month 2025 m" and "1 \<le> m" and "m \<le> 5" and "m = 5 \<longrightarrow> 1 + j \<le> 20"
    for a j m
  proof -
    have "add_days START_DATE (a + j)
            = \<lparr>ts_year = 2025, ts_month = m, ts_day = 1 + j, ts_secs = 0\<rparr>"
      unfolding add_days_add that(1) by (rule add_days_within [OF that(2)])
    with that(2-5) show ?thesis by simp
  qed
  have s0: "add_days START_DATE 0 = \<lparr>ts_year = 2025, ts_month = 1, ts_day = 1, ts_secs = 0\<rparr>"
    by (simp add: add_days_def START_DATE_def)
  consider "k < 31" | "31 \<le> k" "k < 59" | "59 \<le> k" "k < 90" | "90 \<le> k" "k < 120"
    | "120 \<le> k" "k \<le> 139"
    using assms by linarith
  then show ?thesis
  proof cases
    case 1
    then have "1 + k \<le> days_in_month 2025 1" unfolding days_in_month_2025 by simp
    from within [OF s0 this] show ?thesis by simp
  next
    case 2
    then have "1 + (k - 31) \<le> days_in_month 2025 2" unfolding days_in_month_2025 by simp
    from within [OF add_days_config_months(1) this] 2 show ?thesis by simp
  next
    case 3
    then have "1 + (k - 59) \<le> days_in_month 2025 3" unfolding days_in_month_2025 by simp
    from within [OF add_days_config_months(2) this] 3 show ?thesis by simp
  next
    case 4
    then have "1 + (k - 90) \<le> days_in_month 2025 4" unfolding days_in_month_2025 by simp
    from within [OF add_days_config_months(3) this] 4 show ?thesis by simp
  next
    case 5
    then have "1 + (k - 120) \<le> days_in_month 2025 5" unfolding days_in_month_2025 by simp
    from within [OF add_days_config_months(4) this] 5 show ?thesis by simp
  qed
qed

lemma add_days_config_valid:
  assumes "k \<le> 139"
  shows "valid_ts (add_days START_DATE k)" and "ts_year (add_days START_DATE k) < 10000"
    and "ts_secs (add_days START_DATE k) = 0"
    and "dt_date START_DATE \<le> dt_date (add_days START_DATE k)"
    and "dt_date (add_days START_DATE k) \<le> dt_date END_DATE"
proof -
  from add_days_config [OF assms] obtain m d where
    e: "add_days START_DATE k = \<lparr>ts_year = 2025, ts_month = m, ts_day = d, ts_secs = 0\<rparr>"
    and b: "1 \<le> m" "m \<le> 5" "1 \<le> d" "d \<le> days_in_month 2025 m" "m = 5 \<longrightarrow> d \<le> 20"
    by blast
  show "valid_ts (add_days START_DATE k)" unfolding e using b by (simp add: valid_ts_def)
  show "ts_year (add_days START_DATE k) < 10000" unfolding e by simp
  show "ts_secs (add_days START_DATE k) = 0" unfolding e by simp
  show "dt_date START_DATE \<le> dt_date (add_days START_DATE k)"
    unfolding e using b(1,3)
    by (auto simp: dt_date_def START_DATE_def less_eq_prod_def less_prod_def)
  show "dt_date (add_days START_DATE k) \<le> dt_date END_DATE"
    unfolding e using b(2,5)
    by (auto simp: dt_date_def END_DATE_def less_eq_prod_def less_prod_def)
qed

lemma random_date_config:
  assumes "rng_contract R"
  shows "\<exists>k g'. k \<le> 139 \<and> random_date R START_DATE END_DATE g = Inr (add_days START_DATE k, g')"
proof -
  obtain k g' where r: "randint R 0 140 g = (k, g')" by (cases "randint R 0 140 g")
  from assms have "fst (randint R 0 140 g) < 140"
    unfolding rng_contract_def by simp
  with r have "k \<le> 139" by simp
  moreover have "random_date R START_DATE END_DATE g = Inr (add_days START_DATE k, g')"
    by (simp add: random_date_def timedelta_days_config r)
  ultimately show ?thesis by blast
qed

lemma rint_ge:
  assumes "of_int n \<le> x"
  shows "n \<le> rint x"
proof -
  from assms have "n \<le> \<lfloor>x\<rfloor>" by (simp add: le_floor_iff)
  moreover have "\<lfloor>x\<rfloor> \<le> rint x" by (simp add: rint_def Let_def)
  ultimately show ?thesis by linarith
qed

lemma rint_le:
  assumes "x \<le> of_int n"
  shows "rint x \<le> n"
proof (cases "x = of_int \<lfloor>x\<rfloor>")
  case True
  then have "x - of_int \<lfloor>x\<rfloor> < 1 / 2" by simp
  then have "rint x = \<lfloor>x\<rfloor>" by (simp add: rint_def Let_def)
  with assms show ?thesis by (simp add: floor_le_iff) 
next
  case False
  then have "of_int \<lfloor>x\<rfloor> < x" using of_int_floor_le [of x] by linarith
  with assms have "of_int \<lfloor>x\<rfloor> < (of_int n :: real)" by linarith
  then have "\<lfloor>x\<rfloor> < n" by simp
  moreover have "rint x \<le> \<lfloor>x\<rfloor> + 1" by (simp add: rint_def Let_def)
  ultimately show ?thesis by linarith
qed

lemma np_round_6:
  assumes "of_int lo / 10 ^ 6 \<le> x" and "x \<le> of_int hi / 10 ^ 6"
  shows "of_int lo / 10 ^ 6 \<le> np_round x 6" and "np_round x 6 \<le> of_int hi / 10 ^ 6"
proof -
  from assms(1) have "of_int lo \<le> x * 10 ^ 6" by (simp add: field_simps)
  then have "lo \<le> rint (x * 10 ^ 6)" by (rule rint_ge)
  then have "(of_int lo :: real) \<le> of_int (rint (x * 10 ^ 6))" by simp
  then show "of_int lo / 10 ^ 6 \<le> np_round x 6"
    unfolding np_round_def by (simp add: divide_right_mono)
  from assms(2) have "x * 10 ^ 6 \<le> of_int hi" by (simp add: field_simps)
  then have "rint (x * 10 ^ 6) \<le> hi" by (rule rint_le)
  then have "(of_int (rint (x * 10 ^ 6)) :: real) \<le> of_int hi" by simp
  then show "np_round x 6 \<le> of_int hi / 10 ^ 6"
    unfolding np_round_def by (simp add: divide_right_mono)
qed

section \<open>Numbers as text\<close>

lemma digits_nonempty: "digits n \<noteq> []"
  by (subst digits.simps) simp

lemma digits_chars: "c \<in> set (digits n) \<Longrightarrow> \<exists>d. c = digit_char d"
proof (induction n rule: digits.induct)
  case (1 n)
  show ?case
  proof (cases "n < 10")
    case True
    with "1.prems" show ?thesis by (subst (asm) digits.simps) auto
  next
    case False
    with "1.prems" have "c \<in> set (digits (n div 10)) \<or> c = digit_char n"
      by (subst (asm) digits.simps) auto
    with "1.IH" [OF False] show ?thesis by blast
  qed
qed

lemma digits_value_digits: "digits_value (digits n) = n"
proof (induction n rule: digits.induct)
  case (1 n)
  show ?case
  proof (cases "n < 10")
    case True
    then show ?thesis
      by (subst digits.simps) (simp add: digits_value_def digit_val_digit_char)
  next
    case False
    have "digits_value (digits n) = 10 * digits_value (digits (n div 10)) + n mod 10"
      using False by (subst digits.simps) (simp add: digits_value_snoc digit_val_digit_char)
    with "1.IH" [OF False] show ?thesis by simp
  qed
qed

lemma parse_nat_digits: "parse_nat (digits n) = Some n"
proof -
  have "list_all (\<lambda>c. digit_val c \<noteq> None) (digits n)"
    unfolding list_all_iff using digits_chars digit_val_digit_char by fastforce
  then show ?thesis
    by (simp add: parse_nat_def digits_nonempty digits_value_digits)
qed

lemma digits_value_zeros: "digits_value (s @ replicate z (CHR ''0'')) = digits_value s * 10 ^ z"
proof (induction z)
  case 0
  show ?case by simp
next
  case (Suc z)
  have "s @ replicate (Suc z) (CHR ''0'') = (s @ replicate z (CHR ''0'')) @ [CHR ''0'']"
    by (simp add: replicate_append_same)
  then have "digits_value (s @ replicate (Suc z) (CHR ''0''))
      = 10 * digits_value (s @ replicate z (CHR ''0''))"
    by (simp only: digits_value_snoc) (simp add: digit_val_def upt_rec)
  with Suc show ?case by simp
qed

lemma strip_zeros_decomp: "\<exists>z. s = strip_zeros s @ replicate z (CHR ''0'')"
proof -
  let ?P = "\<lambda>c. c = CHR ''0''"
  have "rev s = takeWhile ?P (rev s) @ dropWhile ?P (rev s)" by simp
  then have "s = rev (dropWhile ?P (rev s)) @ rev (takeWhile ?P (rev s))"
    by (metis rev_append rev_rev_ident)
  moreover have "takeWhile ?P (rev s) = replicate (length (takeWhile ?P (rev s))) (CHR ''0'')"
    by (rule replicate_eqI) (auto dest: set_takeWhileD)
  ultimately show ?thesis
    unfolding strip_zeros_def by (metis rev_replicate)
qed

lemma strip_zeros_subset: "set (strip_zeros s) \<subseteq> set s"
  unfolding strip_zeros_def using set_dropWhileD by fastforce

lemma six_digits:
  fixes a :: nat
  shows "foldl (\<lambda>n d. 10 * n + d mod 10) 0
           [a div 100000, a div 10000, a div 1000, a div 100, a div 10, a] = a mod 1000000"
proof -
  have step: "n mod (10 * c) = 10 * (n div 10 mod c) + n mod 10" for n c :: nat
    by (rule mod_mult2_eq)
  have d: "a div 10 div 10 = a div 100" "a div 100 div 10 = a div 1000"
    "a div 1000 div 10 = a div 10000" "a div 10000 div 10 = a div 100000"
    by (simp_all add: div_mult2_eq [symmetric])
  have "a mod 1000000 = 10 * (a div 10 mod 100000) + a mod 10"
    using step [of a 100000] by simp
  also have "a div 10 mod 100000 = 10 * (a div 100 mod 10000) + a div 10 mod 10"
    using step [of "a div 10" 10000] by (simp add: d)
  also have "a div 100 mod 10000 = 10 * (a div 1000 mod 1000) + a div 100 mod 10"
    using step [of "a div 100" 1000] by (simp add: d)
  also have "a div 1000 mod 1000 = 10 * (a div 10000 mod 100) + a div 1000 mod 10"
    using step [of "a div 1000" 100] by (simp add: d)
  also have "a div 10000 mod 100 = 10 * (a div 100000 mod 10) + a div 10000 mod 10"
    using step [of "a div 10000" 10] by (simp add: d)
  finally show ?thesis by simp
qed

lemma parse_float_parts:
  assumes "\<forall>c\<in>set w. c \<noteq> CHR ''.''" and "w \<noteq> []" and "hd w \<noteq> CHR ''-''"
    and "parse_nat w = Some p" and "parse_nat fr = Some f"
  shows "parse_float ((if neg then ''-'' else []) @ w @ ''.'' @ fr)
           = Some ((if neg then - 1 else 1) * (real p + real f / 10 ^ length fr))"
proof -
  have tw: "takeWhile (\<lambda>c. c \<noteq> CHR ''.'') (w @ CHR ''.'' # fr) = w"
    using assms(1) by (simp add: takeWhile_append2)
  have dw: "dropWhile (\<lambda>c. c \<noteq> CHR ''.'') (w @ CHR ''.'' # fr) = CHR ''.'' # fr"
    using assms(1) by (simp add: dropWhile_append2)
  show ?thesis
  proof (cases neg)
    case True
    then show ?thesis
      by (simp add: parse_float_def Let_def tw dw assms(4,5))
  next
    case False
    have "hd (w @ CHR ''.'' # fr) \<noteq> CHR ''-''" using assms(2,3) by simp
    with False show ?thesis
      by (simp add: parse_float_def Let_def tw dw assms(4,5))
  qed
qed

lemma fraction_text:
  fixes a :: nat
  defines "six \<equiv> map digit_char [a div 100000, a div 10000, a div 1000, a div 100, a div 10, a]"
  defines "fr \<equiv> (if strip_zeros six = [] then ''0'' else strip_zeros six)"
  shows "\<exists>f. parse_nat fr = Some f \<and> real f / 10 ^ length fr = real (a mod 1000000) / 10 ^ 6"
proof -
  have v: "digits_value six = a mod 1000000"
    unfolding six_def digits_value_map_digit_char by (rule six_digits)
  have len: "length six = 6" by (simp add: six_def)
  have dig: "\<forall>c\<in>set six. digit_val c \<noteq> None"
    by (simp add: six_def digit_val_digit_char)
  obtain z where z: "six = strip_zeros six @ replicate z (CHR ''0'')"
    using strip_zeros_decomp by blast
  show ?thesis
  proof (cases "strip_zeros six = []")
    case True
    with z have "six = [] @ replicate z (CHR ''0'')" by simp
    then have "digits_value six = digits_value [] * 10 ^ z" by (simp only: digits_value_zeros)
    then have "a mod 1000000 = 0" unfolding v by (simp add: digits_value_def)
    moreover have "parse_nat ''0'' = Some 0"
      by (simp add: parse_nat_def digits_value_def digit_val_def upt_rec)
    ultimately show ?thesis using True by (simp add: fr_def)
  next
    case False
    let ?s = "strip_zeros six"
    have "\<forall>c\<in>set ?s. digit_val c \<noteq> None" using dig strip_zeros_subset by blast
    with False have p: "parse_nat ?s = Some (digits_value ?s)"
      by (simp add: parse_nat_def list_all_iff)
    have "digits_value six = digits_value ?s * 10 ^ z"
      by (subst z) (rule digits_value_zeros)
    then have m: "real (a mod 1000000) = real (digits_value ?s) * 10 ^ z"
      unfolding v by simp
    have "length six = length ?s + z" by (subst z) simp
    then have l: "length ?s + z = 6" using len by simp
    have "real (digits_value ?s) / 10 ^ length ?s
        = (real (digits_value ?s) * 10 ^ z) / (10 ^ length ?s * 10 ^ z)" by simp
    also have "\<dots> = real (a mod 1000000) / 10 ^ (length ?s + z)"
      unfolding m by (simp only: power_add)
    finally have "real (digits_value ?s) / 10 ^ length ?s = real (a mod 1000000) / 10 ^ 6"
      unfolding l .
    with p False show ?thesis by (simp add: fr_def)
  qed
qed

lemma parse_float_repr:
  "parse_float (float_repr (of_int k / 10 ^ 6)) = Some (of_int k / 10 ^ 6)"
proof -
  let ?v = "of_int k / 10 ^ 6 :: real"
  let ?a = "nat \<bar>k\<bar>"
  let ?six = "map digit_char [?a div 100000, ?a div 10000, ?a div 1000, ?a div 100, ?a div 10, ?a]"
  let ?fr = "(if strip_zeros ?six = [] then ''0'' else strip_zeros ?six)"
  have e: "\<bar>?v\<bar> * 10 ^ 6 = of_int \<bar>k\<bar>" by (simp add: abs_divide)
  have a: "nat \<lfloor>\<bar>?v\<bar> * 10 ^ 6\<rfloor> = ?a" unfolding e by (simp only: floor_of_int)
  have neg: "?v < 0 \<longleftrightarrow> k < 0" by (simp add: divide_less_0_iff)
  have repr: "float_repr ?v = (if k < 0 then ''-'' else []) @ digits (?a div 10 ^ 6) @ ''.'' @ ?fr"
    unfolding float_repr_def Let_def a neg by simp
  from fraction_text [of ?a] obtain f where
    f: "parse_nat ?fr = Some f" "real f / 10 ^ length ?fr = real (?a mod 1000000) / 10 ^ 6"
    by blast
  have w1: "\<forall>c\<in>set (digits (?a div 10 ^ 6)). c \<noteq> CHR ''.''"
  proof (rule ballI)
    fix c assume "c \<in> set (digits (?a div 10 ^ 6))"
    then obtain d where "c = digit_char d" using digits_chars by blast
    then show "c \<noteq> CHR ''.''" by (simp add: digit_char_not_dot)
  qed
  have "hd (digits (?a div 10 ^ 6)) \<in> set (digits (?a div 10 ^ 6))"
    by (rule hd_in_set) (rule digits_nonempty)
  then obtain d where "hd (digits (?a div 10 ^ 6)) = digit_char d" using digits_chars by blast
  then have w2: "hd (digits (?a div 10 ^ 6)) \<noteq> CHR ''-''"
    by (simp add: digit_char_not_minus)
  have "parse_float (float_repr ?v)
      = Some ((if k < 0 then - 1 else 1) * (real (?a div 10 ^ 6) + real f / 10 ^ length ?fr))"
    unfolding repr by (rule parse_float_parts [OF w1 digits_nonempty w2 parse_nat_digits f(1)])
  also have "real (?a div 10 ^ 6) + real f / 10 ^ length ?fr = real ?a / 10 ^ 6"
  proof -
    have "?a = 1000000 * (?a div 1000000) + ?a mod 1000000" by simp
    then have "real ?a = 1000000 * real (?a div 1000000) + real (?a mod 1000000)"
      by (metis of_nat_add of_nat_mult of_nat_numeral)
    then show ?thesis unfolding f(2) by (simp add: field_simps)
  qed
  also have "(if k < 0 then - 1 else 1) * (real ?a / 10 ^ 6) = ?v" by simp
  finally show ?thesis .
qed

section \<open>The generated file read back\<close>

lemma read_label_config:
  "c \<in> set CRIME_TYPES \<Longrightarrow> read_label c = Some c"
  "d \<in> set DISTRICTS \<Longrightarrow> read_label d = Some d"
  by (auto simp: CRIME_TYPES_def DISTRICTS_def read_label_def na_values_def)

lemma read_row_generated:
  assumes "k \<le> 139" and "c \<in> set CRIME_TYPES" and "d \<in> set DISTRICTS"
  shows "read_row COLUMNS [strftime_Ymd (add_days START_DATE k), c,
            float_repr (of_int i / 10 ^ 6), float_repr (of_int j / 10 ^ 6), d]
         = Some \<lparr>Date = add_days START_DATE k, Crime_Type = Some c,
                  Latitude = of_int i / 10 ^ 6, Longitude = of_int j / 10 ^ 6, District = Some d\<rparr>"
proof -
  have p: "parse_date (strftime_Ymd (add_days START_DATE k)) = Some (add_days START_DATE k)"
    by (rule parse_date_strftime) (rule add_days_config_valid [OF assms(1)])+
  have f: "parse_float (float_repr (of_int n / 1000000)) = Some (of_int n / 1000000)" for n
    using parse_float_repr [of n] by simp
  show ?thesis
    unfolding read_row_def COLUMNS_def Let_def
    by (simp add: p f read_label_config(1) [OF assms(2)] read_label_config(2) [OF assms(3)])
qed

lemma those_map_Some: "(\<forall>x\<in>set xs. f x = Some (h x)) \<Longrightarrow> those (map f xs) = Some (map h xs)"
  by (induction xs) simp_all

lemma records_loop_rows:
  assumes "rng_contract R"
  shows "\<exists>records g'. records_loop R n g = Inr (records, g') \<and> length records = n \<and>
     (\<forall>r\<in>set records. \<exists>k c i j d.
         r = (strftime_Ymd (add_days START_DATE k), c, of_int i / 10 ^ 6, of_int j / 10 ^ 6, d)
       \<and> k \<le> 139 \<and> c \<in> set CRIME_TYPES \<and> d \<in> set DISTRICTS
       \<and> - 22000000 \<le> i \<and> i \<le> - 15000000 \<and> 25000000 \<le> j \<and> j \<le> 34000000)"
proof (induction n arbitrary: g)
  case 0
  show ?case by simp
next
  case (Suc n)
  from random_date_config [OF assms] obtain k g1 where
    k: "k \<le> 139" and rd: "random_date R START_DATE END_DATE g = Inr (add_days START_DATE k, g1)"
    by blast
  obtain c g2 where c: "choice R CRIME_TYPES g1 = (c, g2)" by (cases "choice R CRIME_TYPES g1")
  obtain d g3 where d: "choice R DISTRICTS g2 = (d, g3)" by (cases "choice R DISTRICTS g2")
  obtain u g4 where u: "uniform R LAT_MIN LAT_MAX g3 = (u, g4)"
    by (cases "uniform R LAT_MIN LAT_MAX g3")
  obtain w g5 where w: "uniform R LON_MIN LON_MAX g4 = (w, g5)"
    by (cases "uniform R LON_MIN LON_MAX g4")
  from Suc.IH [of g5] obtain records g' where
    rec: "records_loop R n g5 = Inr (records, g')" and len: "length records = n"
    and rows: "\<forall>r\<in>set records. \<exists>k c i j d.
         r = (strftime_Ymd (add_days START_DATE k), c, of_int i / 10 ^ 6, of_int j / 10 ^ 6, d)
       \<and> k \<le> 139 \<and> c \<in> set CRIME_TYPES \<and> d \<in> set DISTRICTS
       \<and> - 22000000 \<le> i \<and> i \<le> - 15000000 \<and> 25000000 \<le> j \<and> j \<le> 34000000"
    by blast
  have ch: "fst (choice R xs s) \<in> set xs" if "xs \<noteq> []" for xs s
    using assms that unfolding rng_contract_def by blast
  have un: "lo \<le> fst (uniform R lo hi s) \<and> fst (uniform R lo hi s) \<le> hi" if "lo \<le> hi" for lo hi s
    using assms that unfolding rng_contract_def by blast
  have "CRIME_TYPES \<noteq> []" by (simp add: CRIME_TYPES_def)
  from ch [OF this, of g1] have cin: "c \<in> set CRIME_TYPES" by (simp add: c)
  have "DISTRICTS \<noteq> []" by (simp add: DISTRICTS_def)
  from ch [OF this, of g2] have din: "d \<in> set DISTRICTS" by (simp add: d)
  have "LAT_MIN \<le> LAT_MAX" by (simp add: LAT_MIN_def LAT_MAX_def)
  from un [OF this, of g3]
  have "LAT_MIN \<le> fst (uniform R LAT_MIN LAT_MAX g3) \<and> fst (uniform R LAT_MIN LAT_MAX g3) \<le> LAT_MAX" .
  then have "LAT_MIN \<le> u \<and> u \<le> LAT_MAX" by (simp add: u)
  then have ub: "of_int (- 22000000) / 10 ^ 6 \<le> u" "u \<le> of_int (- 15000000) / 10 ^ 6"
    by (simp_all add: LAT_MIN_def LAT_MAX_def)
  have "LON_MIN \<le> LON_MAX" by (simp add: LON_MIN_def LON_MAX_def)
  from un [OF this, of g4]
  have "LON_MIN \<le> fst (uniform R LON_MIN LON_MAX g4) \<and> fst (uniform R LON_MIN LON_MAX g4) \<le> LON_MAX" .
  then have "LON_MIN \<le> w \<and> w \<le> LON_MAX" by (simp add: w)
  then have wb: "of_int 25000000 / 10 ^ 6 \<le> w" "w \<le> of_int 34000000 / 10 ^ 6"
    by (simp_all add: LON_MIN_def LON_MAX_def)
  let ?i = "rint (u * 10 ^ 6)" and ?j = "rint (w * 10 ^ 6)"
  have ib: "- 22000000 \<le> ?i" "?i \<le> - 15000000"
    using np_round_6 [OF ub] unfolding np_round_def by (simp_all add: divide_le_cancel)
  have jb: "25000000 \<le> ?j" "?j \<le> 34000000"
    using np_round_6 [OF wb] unfolding np_round_def by (simp_all add: divide_le_cancel)
  let ?r = "(strftime_Ymd (add_days START_DATE k), c, of_int ?i / 10 ^ 6, of_int ?j / 10 ^ 6, d)"
  have run: "records_loop R (Suc n) g = Inr (?r # records, g')"
    by (simp add: rd c d u w rec np_round_def)
  have "\<exists>k c i j d.
         ?r = (strftime_Ymd (add_days START_DATE k), c, of_int i / 10 ^ 6, of_int j / 10 ^ 6, d)
       \<and> k \<le> 139 \<and> c \<in> set CRIME_TYPES \<and> d \<in> set DISTRICTS
       \<and> - 22000000 \<le> i \<and> i \<le> - 15000000 \<and> 25000000 \<le> j \<and> j \<le> 34000000"
    using k cin din ib jb by blast
  with rows have "\<forall>r\<in>set (?r # records). \<exists>k c i j d.
         r = (strftime_Ymd (add_days START_DATE k), c, of_int i / 10 ^ 6, of_int j / 10 ^ 6, d)
       \<and> k \<le> 139 \<and> c \<in> set CRIME_TYPES \<and> d \<in> set DISTRICTS
       \<and> - 22000000 \<le> i \<and> i \<le> - 15000000 \<and> 25000000 \<le> j \<and> j \<le> 34000000"
    by (simp only: set_simps ball_simps)
  with run len show ?case by (intro exI [of _ "?r # records"] exI [of _ g']) simp
qed

lemma read_csv_table_to_csv:
  assumes "\<forall>r\<in>set records. read_row COLUMNS
              (case r of (date, crime, lat, lon, district) \<Rightarrow>
                 [date, crime, float_repr lat, float_repr lon, district]) = Some (h r)"
  shows "read_csv_table (to_csv records) = Inr (map h records)"
proof -
  let ?line = "\<lambda>(date, crime, lat, lon, district).
                 [date, crime, float_repr lat, float_repr lon, district :: string]"
  have five: "\<forall>l\<in>set (map ?line records). length l = 5" by auto
  have no_long: "\<not> list_ex (\<lambda>line. length COLUMNS < length line) (map ?line records)"
    using five by (simp add: list_ex_iff COLUMNS_def)
  have "\<forall>l\<in>set (map ?line records). l \<noteq> ['''']" using five by fastforce
  then have keep: "filter (\<lambda>line. line \<noteq> ['''']) (map ?line records) = map ?line records"
    by (simp only: filter_id_conv) 
  have "those (map (read_row COLUMNS) (map ?line records)) = those (map (\<lambda>r. read_row COLUMNS (?line r)) records)"
    by (simp add: comp_def)
  also have "\<dots> = Some (map h records)"
    by (rule those_map_Some) (rule assms)
  finally have th: "those (map (read_row COLUMNS) (map ?line records)) = Some (map h records)" .
  have d: "''Date'' \<in> set COLUMNS" by (simp add: COLUMNS_def)
  show ?thesis
    unfolding read_csv_table_def to_csv_def
    by (simp only: list.case d not_True_eq_False not_not if_False no_long keep th option.case)
qed


lemma example_rng_contract: "rng_contract example_rng"
proof -
  have u: "low \<le> low + (high - low) * (real (g mod 100) / 100) \<and>
           low + (high - low) * (real (g mod 100) / 100) \<le> high" if "low \<le> high"
    for low high :: real and g :: nat
  proof -
    have "real (g mod 100) / 100 \<le> 1" by simp
    then have "(high - low) * (real (g mod 100) / 100) \<le> (high - low) * 1"
      using that by (intro mult_left_mono) simp_all
    moreover have "0 \<le> (high - low) * (real (g mod 100) / 100)" using that by simp
    ultimately show ?thesis by simp
  qed
  have r: "low \<le> low + g mod (high - low) \<and> low + g mod (high - low) < high" if "low < high"
    for low high g :: nat
  proof -
    from that have "g mod (high - low) < high - low" by (intro mod_less_divisor) simp
    then show ?thesis by linarith
  qed
  have c: "xs ! (g mod length xs) \<in> set xs" if "xs \<noteq> []" for xs :: "string list" and g
    using that by (intro nth_mem mod_less_divisor) simp
  show ?thesis
    unfolding rng_contract_def example_rng_def using u r c by simp
qed

lemma records_loop_example: "records_loop example_rng (Suc 0) 0
    = Inr ([(''2025-01-01'', ''Assault'', - 21.79, 25.36, ''Mutare'')], 5)"
proof -
  have rd: "random_date example_rng START_DATE END_DATE 0 = Inr (add_days START_DATE 0, 1)"
    by (simp add: random_date_def timedelta_days_config example_rng_def)
  have d: "strftime_Ymd (add_days START_DATE 0) = ''2025-01-01''"
    by (simp add: add_days_def strftime_Ymd_def START_DATE_def digit_char_def)
  have la: "np_round (- (2179 / 100)) 6 = - (2179 / 100)"
    and lo: "np_round (634 / 25) 6 = 634 / 25"
    by (simp_all add: np_round_def rint_def Let_def)
  show ?thesis
    unfolding records_loop.simps rd
    by (simp add: d example_rng_def CRIME_TYPES_def DISTRICTS_def
      LAT_MIN_def LAT_MAX_def LON_MIN_def LON_MAX_def la lo)
qed

text \<open>
  C8. Whatever the random numbers, as long as they keep the library's contract, the
  generator ends without an error and writes \<^verbatim>\<open>crime_data.csv\<close>: the header with the
  five columns \<^verbatim>\<open>Date\<close>, \<^verbatim>\<open>Crime_Type\<close>, \<^verbatim>\<open>Latitude\<close>, \<^verbatim>\<open>Longitude\<close>, \<^verbatim>\<open>District\<close> and
  \<open>NUM_RECORDS\<close> lines of five cells. Every generated record has its latitude between
  \<open>LAT_MIN\<close> and \<open>LAT_MAX\<close> and its longitude between \<open>LON_MIN\<close> and \<open>LON_MAX\<close>. The
  loader reads the file at its default path into a frame of \<open>NUM_RECORDS\<close> rows, one
  per generated record and in the same order, with the generated date, crime type,
  coordinates and district (no label missing); the date of every row lies between
  \<open>START_DATE\<close> and \<open>END_DATE\<close>, both inclusive.
\<close>

theorem generator_round_trip:
  assumes "rng_contract R"
  shows "\<exists>records g' df.
      gen_crime_data R g files = Inr (files(''crime_data.csv'' \<mapsto> to_csv records), g')
    \<and> length records = NUM_RECORDS
    \<and> list_all (\<lambda>(date, crime, lat, lon, district).
         LAT_MIN \<le> lat \<and> lat \<le> LAT_MAX \<and> LON_MIN \<le> lon \<and> lon \<le> LON_MAX) records
    \<and> hd (to_csv records) = [''Date'', ''Crime_Type'', ''Latitude'', ''Longitude'', ''District'']
    \<and> list_all (\<lambda>line. length line = 5) (to_csv records)
    \<and> load_data (pd_read_csv (files(''crime_data.csv'' \<mapsto> to_csv records)) upload)
         ''crime_data.csv'' = Inr df
    \<and> length df = NUM_RECORDS
    \<and> list_all2 (\<lambda>(date, crime, lat, lon, district) r.
         strftime_Ymd (Date r) = date \<and> Crime_Type r = Some crime \<and> Latitude r = lat \<and>
         Longitude r = lon \<and> District r = Some district) records df
    \<and> list_all (\<lambda>r. dt_date START_DATE \<le> dt_date (Date r) \<and> dt_date (Date r) \<le> dt_date END_DATE \<and>
         LAT_MIN \<le> Latitude r \<and> Latitude r \<le> LAT_MAX \<and>
         LON_MIN \<le> Longitude r \<and> Longitude r \<le> LON_MAX) df"
proof -
  from records_loop_rows [OF assms, of NUM_RECORDS g] obtain records g' where
    run: "records_loop R NUM_RECORDS g = Inr (records, g')" and len: "length records = NUM_RECORDS"
    and rows: "\<forall>r\<in>set records. \<exists>k c i j d.
         r = (strftime_Ymd (add_days START_DATE k), c, of_int i / 10 ^ 6, of_int j / 10 ^ 6, d)
       \<and> k \<le> 139 \<and> c \<in> set CRIME_TYPES \<and> d \<in> set DISTRICTS
       \<and> - 22000000 \<le> i \<and> i \<le> - 15000000 \<and> 25000000 \<le> j \<and> j \<le> 34000000"
    by blast
  let ?h = "\<lambda>(date, crime, lat, lon, district).
     \<lparr>Date = the (parse_date date), Crime_Type = Some crime, Latitude = lat, Longitude = lon,
      District = Some district\<rparr>"
  let ?files = "files(''crime_data.csv'' \<mapsto> to_csv records)"
  have gen: "gen_crime_data R g files = Inr (?files, g')"
    by (simp add: gen_crime_data_def run)
  have lat: "LAT_MIN \<le> of_int i / 10 ^ 6 \<and> of_int i / 10 ^ 6 \<le> LAT_MAX"
    if "- 22000000 \<le> i" and "i \<le> - 15000000" for i :: int
  proof -
    from that have "(of_int (- 22000000) :: real) \<le> of_int i" and "(of_int i :: real) \<le> of_int (- 15000000)"
      by (simp_all only: of_int_le_iff)
    then show ?thesis by (simp add: LAT_MIN_def LAT_MAX_def field_simps)
  qed
  have lon: "LON_MIN \<le> of_int j / 10 ^ 6 \<and> of_int j / 10 ^ 6 \<le> LON_MAX"
    if "25000000 \<le> j" and "j \<le> 34000000" for j :: int
  proof -
    from that have "(of_int 25000000 :: real) \<le> of_int j" and "(of_int j :: real) \<le> of_int 34000000"
      by (simp_all only: of_int_le_iff)
    then show ?thesis by (simp add: LON_MIN_def LON_MAX_def field_simps)
  qed
  have box: "list_all (\<lambda>(date, crime, lat, lon, district).
         LAT_MIN \<le> lat \<and> lat \<le> LAT_MAX \<and> LON_MIN \<le> lon \<and> lon \<le> LON_MAX) records"
    unfolding list_all_iff
  proof (rule ballI)
    fix r assume "r \<in> set records"
    with rows obtain k c i j d where
      "r = (strftime_Ymd (add_days START_DATE k), c, of_int i / 10 ^ 6, of_int j / 10 ^ 6, d)"
      "- 22000000 \<le> i" "i \<le> - 15000000" "25000000 \<le> j" "j \<le> 34000000" by blast
    with lat [of i] lon [of j]
    show "case r of (date, crime, lat, lon, district) \<Rightarrow>
         LAT_MIN \<le> lat \<and> lat \<le> LAT_MAX \<and> LON_MIN \<le> lon \<and> lon \<le> LON_MAX"
      by simp
  qed
  have hdr: "hd (to_csv records) = [''Date'', ''Crime_Type'', ''Latitude'', ''Longitude'', ''District'']"
    by (simp add: to_csv_def COLUMNS_def)
  have five: "list_all (\<lambda>line. length line = 5) (to_csv records)"
    by (auto simp: to_csv_def COLUMNS_def list_all_iff)
  have rr: "\<forall>r\<in>set records. read_row COLUMNS
              (case r of (date, crime, lat, lon, district) \<Rightarrow>
                 [date, crime, float_repr lat, float_repr lon, district]) = Some (?h r)"
  proof (rule ballI)
    fix r assume "r \<in> set records"
    with rows obtain k c i j d where
      r: "r = (strftime_Ymd (add_days START_DATE k), c, of_int i / 10 ^ 6, of_int j / 10 ^ 6, d)"
      and k: "k \<le> 139" and c: "c \<in> set CRIME_TYPES" and d: "d \<in> set DISTRICTS" by blast
    have p: "parse_date (strftime_Ymd (add_days START_DATE k)) = Some (add_days START_DATE k)"
      by (rule parse_date_strftime) (rule add_days_config_valid [OF k])+
    show "read_row COLUMNS
              (case r of (date, crime, lat, lon, district) \<Rightarrow>
                 [date, crime, float_repr lat, float_repr lon, district]) = Some (?h r)"
      unfolding r by (simp only: prod.case read_row_generated [OF k c d] p option.sel)
  qed
  have load: "load_data (pd_read_csv ?files upload) ''crime_data.csv'' = Inr (map ?h records)"
    by (simp add: load_data_def pd_read_csv_def read_csv_table_to_csv [OF rr])
  have same: "list_all2 (\<lambda>(date, crime, lat, lon, district) r.
         strftime_Ymd (Date r) = date \<and> Crime_Type r = Some crime \<and> Latitude r = lat \<and>
         Longitude r = lon \<and> District r = Some district) records (map ?h records)"
    unfolding list_all2_map2 list_all2_same
  proof (rule ballI)
    fix r assume "r \<in> set records"
    with rows obtain k c i j d where
      r: "r = (strftime_Ymd (add_days START_DATE k), c, of_int i / 10 ^ 6, of_int j / 10 ^ 6, d)"
      and k: "k \<le> 139" by blast
    have p: "parse_date (strftime_Ymd (add_days START_DATE k)) = Some (add_days START_DATE k)"
      by (rule parse_date_strftime) (rule add_days_config_valid [OF k])+
    show "(case r of (date, crime, lat, lon, district) \<Rightarrow> \<lambda>r.
         strftime_Ymd (Date r) = date \<and> Crime_Type r = Some crime \<and> Latitude r = lat \<and>
         Longitude r = lon \<and> District r = Some district) (?h r)"
      unfolding r by (simp add: p)
  qed
  have range: "list_all (\<lambda>r. dt_date START_DATE \<le> dt_date (Date r) \<and> dt_date (Date r) \<le> dt_date END_DATE \<and>
         LAT_MIN \<le> Latitude r \<and> Latitude r \<le> LAT_MAX \<and>
         LON_MIN \<le> Longitude r \<and> Longitude r \<le> LON_MAX) (map ?h records)"
    unfolding list_all_iff
  proof (rule ballI)
    fix x assume "x \<in> set (map ?h records)"
    then obtain r where rin: "r \<in> set records" and x: "x = ?h r" by auto
    with rows obtain k c i j d where
      r: "r = (strftime_Ymd (add_days START_DATE k), c, of_int i / 10 ^ 6, of_int j / 10 ^ 6, d)"
      and k: "k \<le> 139" 
      and b: "- 22000000 \<le> i" "i \<le> - 15000000" "25000000 \<le> j" "j \<le> 34000000" by blast
    have p: "parse_date (strftime_Ymd (add_days START_DATE k)) = Some (add_days START_DATE k)"
      by (rule parse_date_strftime) (rule add_days_config_valid [OF k])+
    have xe: "x = \<lparr>Date = add_days START_DATE k, Crime_Type = Some c, Latitude = of_int i / 10 ^ 6,
                   Longitude = of_int j / 10 ^ 6, District = Some d\<rparr>"
      unfolding x r by (simp add: p)
    show "dt_date START_DATE \<le> dt_date (Date x) \<and> dt_date (Date x) \<le> dt_date END_DATE \<and>
         LAT_MIN \<le> Latitude x \<and> Latitude x \<le> LAT_MAX \<and>
         LON_MIN \<le> Longitude x \<and> Longitude x \<le> LON_MAX"
      unfolding xe using add_days_config_valid(4,5) [OF k] lat [OF b(1,2)] lon [OF b(3,4)]
      by simp
  qed
  have len': "length (map ?h records) = NUM_RECORDS" using len by simp
  from gen len box hdr five load len' same range show ?thesis by blast
qed

theorem generator_round_trip_witness:
  "rng_contract example_rng
   \<and> records_loop example_rng (Suc 0) 0
       = Inr ([(''2025-01-01'', ''Assault'', - 21.79, 25.36, ''Mutare'')], 5)
   \<and> (\<exists>records g' df.
      gen_crime_data example_rng 0 Map.empty
        = Inr ([''crime_data.csv'' \<mapsto> to_csv records], g')
    \<and> length records = NUM_RECORDS
    \<and> list_all (\<lambda>(date, crime, lat, lon, district).
         LAT_MIN \<le> lat \<and> lat \<le> LAT_MAX \<and> LON_MIN \<le> lon \<and> lon \<le> LON_MAX) records
    \<and> hd (to_csv records) = [''Date'', ''Crime_Type'', ''Latitude'', ''Longitude'', ''District'']
    \<and> list_all (\<lambda>line. length line = 5) (to_csv records)
    \<and> load_data (pd_read_csv [''crime_data.csv'' \<mapsto> to_csv records] (\<lambda>content. Inl ''no upload''))
         ''crime_data.csv'' = Inr df
    \<and> length df = NUM_RECORDS
    \<and> list_all2 (\<lambda>(date, crime, lat, lon, district) r.
         strftime_Ymd (Date r) = date \<and> Crime_Type r = Some crime \<and> Latitude r = lat \<and>
         Longitude r = lon \<and> District r = Some district) records df
    \<and> list_all (\<lambda>r. dt_date START_DATE \<le> dt_date (Date r) \<and> dt_date (Date r) \<le> dt_date END_DATE \<and>
         LAT_MIN \<le> Latitude r \<and> Latitude r \<le> LAT_MAX \<and>
         LON_MIN \<le> Longitude r \<and> Longitude r \<le> LON_MAX) df)"
proof (intro conjI)
  show "rng_contract example_rng" by (rule example_rng_contract)
  show "records_loop example_rng (Suc 0) 0
       = Inr ([(''2025-01-01'', ''Assault'', - 21.79, 25.36, ''Mutare'')], 5)"
    by (rule records_loop_example)
  show "\<exists>records g' df.
      gen_crime_data example_rng 0 Map.empty
        = Inr ([''crime_data.csv'' \<mapsto> to_csv records], g')
    \<and> length records = NUM_RECORDS
    \<and> list_all (\<lambda>(date, crime, lat, lon, district).
         LAT_MIN \<le> lat \<and> lat \<le> LAT_MAX \<and> LON_MIN \<le> lon \<and> lon \<le> LON_MAX) records
    \<and> hd (to_csv records) = [''Date'', ''Crime_Type'', ''Latitude'', ''Longitude'', ''District'']
    \<and> list_all (\<lambda>line. length line = 5) (to_csv records)
    \<and> load_data (pd_read_csv [''crime_data.csv'' \<mapsto> to_csv records] (\<lambda>content. Inl ''no upload''))
         ''crime_data.csv'' = Inr df
    \<and> length df = NUM_RECORDS
    \<and> list_all2 (\<lambda>(date, crime, lat, lon, district) r.
         strftime_Ymd (Date r) = date \<and> Crime_Type r = Some crime \<and> Latitude r = lat \<and>
         Longitude r = lon \<and> District r = Some district) records df
    \<and> list_all (\<lambda>r. dt_date START_DATE \<le> dt_date (Date r) \<and> dt_date (Date r) \<le> dt_date END_DATE \<and>
         LAT_MIN \<le> Latitude r \<and> Latitude r \<le> LAT_MAX \<and>
         LON_MIN \<le> Longitude r \<and> Longitude r \<le> LON_MAX) df"
    by (rule generator_round_trip [OF example_rng_contract])
qed

end
